theory Spec2Isabelle
  imports Complex_Main "HOL-Library.Word"
begin

section \<open>Vectors, rays and the scene interface\<close>

text \<open>
  The camera of miniray (\<^verbatim>\<open>src/camera.h\<close>, the multithreaded version of the class)
  works on \<^verbatim>\<open>double\<close> vectors. A \<^verbatim>\<open>double\<close> is idealised as a \<^typ>\<open>real\<close>: rounding and
  infinities are outside the model, and where the program would divide by zero and
  go on with a NaN, the model goes on with HOL's \<open>x / 0 = 0\<close>. No theorem of a claim
  states the value of such a quotient.
\<close>

datatype vec3 = Vec3 (vx: real) (vy: real) (vz: real)

type_synonym point3d = vec3
type_synonym vector3d = vec3
type_synonym color = vec3

text \<open>
  Modelled from the spec: the vector arithmetic of \<^verbatim>\<open>vec3.h\<close> (not among the sources),
  which the spec names as "vector/point arithmetic primitives": addition, subtraction,
  scaling, the elementwise product used for attenuation, dot and cross product, length
  and normalisation.
\<close>

definition vadd :: "vec3 \<Rightarrow> vec3 \<Rightarrow> vec3" where
  "vadd a b = Vec3 (vx a + vx b) (vy a + vy b) (vz a + vz b)"

definition vsub :: "vec3 \<Rightarrow> vec3 \<Rightarrow> vec3" where
  "vsub a b = Vec3 (vx a - vx b) (vy a - vy b) (vz a - vz b)"

definition vneg :: "vec3 \<Rightarrow> vec3" where
  "vneg a = Vec3 (- vx a) (- vy a) (- vz a)"

definition smul :: "real \<Rightarrow> vec3 \<Rightarrow> vec3" where
  "smul k a = Vec3 (k * vx a) (k * vy a) (k * vz a)"

definition vmul :: "vec3 \<Rightarrow> vec3 \<Rightarrow> vec3" where
  "vmul a b = Vec3 (vx a * vx b) (vy a * vy b) (vz a * vz b)"

definition vdiv :: "vec3 \<Rightarrow> real \<Rightarrow> vec3" where
  "vdiv a k = smul (1 / k) a"

definition dot :: "vec3 \<Rightarrow> vec3 \<Rightarrow> real" where
  "dot a b = vx a * vx b + vy a * vy b + vz a * vz b"

definition cross :: "vec3 \<Rightarrow> vec3 \<Rightarrow> vec3" where
  "cross a b = Vec3 (vy a * vz b - vz a * vy b)
                    (vz a * vx b - vx a * vz b)
                    (vx a * vy b - vy a * vx b)"

definition vlength :: "vec3 \<Rightarrow> real" where
  "vlength a = sqrt (dot a a)"

definition unit_vector :: "vec3 \<Rightarrow> vec3" where
  "unit_vector a = vdiv a (vlength a)"

text \<open>Modelled from the spec: \<^verbatim>\<open>degrees_to_radians\<close> of \<^verbatim>\<open>rtweekend.h\<close>.\<close>

definition degrees_to_radians :: "real \<Rightarrow> real" where
  "degrees_to_radians degrees = degrees * pi / 180"

datatype ray = Ray (origin: point3d) (direction: vector3d)

text \<open>
  The parametric interval handed to the intersection test; its upper end may be the
  \<^verbatim>\<open>infinity\<close> constant of \<^verbatim>\<open>rtweekend.h\<close>.
\<close>

datatype bound = Finite real | Infinity

datatype interval = Interval (imin: real) (imax: bound)

text \<open>
  The random source. Every call of \<^verbatim>\<open>random_double()\<close> returns the next draw of a
  tape; whatever the interleaving of the worker threads on the shared generator, each
  sample sees some sequence of draws, and the tape is that sequence.
  Modelled from the spec: \<^verbatim>\<open>random_double\<close> of \<^verbatim>\<open>rtweekend.h\<close> ("uniformly random offset
  in [0, 1)"); the range of a draw is a hypothesis where a statement needs it.
\<close>

type_synonym rng = "nat \<Rightarrow> real"

definition random_double :: "rng \<Rightarrow> real \<times> rng" where
  "random_double g = (g 0, \<lambda>n. g (Suc n))"

text \<open>
  Modelled from the spec: the hit record of \<^verbatim>\<open>hittable.h\<close> ("hit point, surface normal,
  parametric distance, and a reference to the surface's material capability") and the
  two collaborator contracts of the spec's section 6. \<^verbatim>\<open>world.hit(r, interval, rec)\<close>
  returns whether there is a hit and fills \<^verbatim>\<open>rec\<close>; \<^verbatim>\<open>rec.mat->scatter(r, rec,
  attenuation, scattered)\<close> returns whether the ray is scattered and fills the two
  outputs, drawing from the random source. Both are total functions here: the scene
  objects and the materials are outside the camera.
\<close>

record 'm hit_record =
  hit_p :: point3d
  hit_normal :: vector3d
  hit_mat :: 'm
  hit_t :: real
  hit_front_face :: bool

record 'm hittable =
  hit :: "ray \<Rightarrow> interval \<Rightarrow> 'm hit_record option"
  scatter :: "'m \<Rightarrow> ray \<Rightarrow> 'm hit_record \<Rightarrow> rng \<Rightarrow> (color \<times> ray) option \<times> rng"

section \<open>The path integrator\<close>

function ray_color :: "ray \<Rightarrow> int \<Rightarrow> 'm hittable \<Rightarrow> rng \<Rightarrow> color \<times> rng" where
  "ray_color r depth world g =
     (if depth \<le> 0 then (Vec3 0 0 0, g)
      else
        (case hit world r (Interval 0.001 Infinity) of
           Some rec \<Rightarrow>
             (case scatter world (hit_mat rec) r rec g of
                (Some (attenuation, scattered), g') \<Rightarrow>
                  (case ray_color scattered (depth - 1) world g' of
                     (c, g'') \<Rightarrow> (vmul attenuation c, g''))
              | (None, g') \<Rightarrow> (Vec3 0 0 0, g'))
         | None \<Rightarrow>
             (let unit_direction = unit_vector (direction r);
                  a = 0.5 * (vy unit_direction + 1.0)
              in (vadd (smul (1.0 - a) (Vec3 1.0 1.0 1.0)) (smul a (Vec3 0.5 0.7 1.0)), g))))"
  by pat_completeness auto
termination
  by (relation "measure (\<lambda>(r, depth, world, g). nat depth)") auto

declare ray_color.simps [simp del]

text \<open>
  The invocations of \<^verbatim>\<open>ray_color\<close> that one call nests, outermost first, each with the
  ray and the bounce budget it was given: the same case analysis as \<^const>\<open>ray_color\<close>,
  recording the call instead of the colour.
\<close>

function ray_color_calls :: "ray \<Rightarrow> int \<Rightarrow> 'm hittable \<Rightarrow> rng \<Rightarrow> (ray \<times> int) list" where
  "ray_color_calls r depth world g =
     (if depth \<le> 0 then [(r, depth)]
      else
        (case hit world r (Interval 0.001 Infinity) of
           Some rec \<Rightarrow>
             (case scatter world (hit_mat rec) r rec g of
                (Some (attenuation, scattered), g') \<Rightarrow>
                  (r, depth) # ray_color_calls scattered (depth - 1) world g'
              | (None, g') \<Rightarrow> [(r, depth)])
         | None \<Rightarrow> [(r, depth)]))"
  by pat_completeness auto
termination
  by (relation "measure (\<lambda>(r, depth, world, g). nat depth)") auto

declare ray_color_calls.simps [simp del]

section \<open>The camera\<close>

text \<open>
  What a call can end with instead of a result. \<^verbatim>\<open>std::vector::resize\<close> throws
  \<^verbatim>\<open>std::length_error\<close> when its \<^verbatim>\<open>int\<close> argument is negative (the conversion to the
  unsigned size type gives a size beyond \<^verbatim>\<open>max_size()\<close>); signed overflow, an index
  outside a vector and a \<^verbatim>\<open>double\<close> that does not fit the \<^verbatim>\<open>int\<close> it is converted to
  are undefined behaviour in C++ and are made explicit here; \<open>Diverges\<close> stands for a
  call that never returns.
\<close>

datatype error = LengthError | SignedOverflow | OutOfBounds | UndefinedConversion | Diverges

text \<open>
  The \<^verbatim>\<open>int\<close> members of the class are 32-bit; they are modelled as integers, and an
  arithmetic result that leaves the 32-bit range is reported as \<open>SignedOverflow\<close>
  where the program computes one that can.
\<close>

definition int_ok :: "int \<Rightarrow> bool" where
  "int_ok n \<longleftrightarrow> - (2 ^ 31) \<le> n \<and> n < 2 ^ 31"

definition int_mul :: "int \<Rightarrow> int \<Rightarrow> error + int" where
  "int_mul a b = (if int_ok (a * b) then Inr (a * b) else Inl SignedOverflow)"

definition int_add :: "int \<Rightarrow> int \<Rightarrow> error + int" where
  "int_add a b = (if int_ok (a + b) then Inr (a + b) else Inl SignedOverflow)"

text \<open>C++ integer division and remainder truncate towards zero.\<close>

definition c_div :: "int \<Rightarrow> int \<Rightarrow> int" where
  "c_div a b = sgn a * sgn b * (\<bar>a\<bar> div \<bar>b\<bar>)"

definition c_mod :: "int \<Rightarrow> int \<Rightarrow> int" where
  "c_mod a b = a - b * c_div a b"

text \<open>\<^verbatim>\<open>v.resize(n)\<close> with an \<^verbatim>\<open>int\<close> argument, new elements value-initialised to \<open>d\<close>.\<close>

definition resize :: "int \<Rightarrow> 'a \<Rightarrow> 'a list \<Rightarrow> error + 'a list" where
  "resize n d xs =
     (if n < 0 then Inl LengthError
      else Inr (take (nat n) xs @ replicate (nat n - length xs) d))"

text \<open>\<^verbatim>\<open>std::fill(v.begin(), v.end(), d)\<close>.\<close>

definition fill :: "'a \<Rightarrow> 'a list \<Rightarrow> 'a list" where
  "fill d xs = map (\<lambda>_. d) xs"

text \<open>
  The class: its private members first (the members \<^verbatim>\<open>u\<close>, \<^verbatim>\<open>v\<close>, \<^verbatim>\<open>w\<close> and \<^verbatim>\<open>image\<close>
  are \<open>basis_u\<close>, \<open>basis_v\<close>, \<open>basis_w\<close> and \<open>image_buf\<close> here), then the public
  camera parameters.
\<close>

record camera =
  center :: point3d
  pixel00_loc :: point3d
  pixel_delta_u :: vector3d
  pixel_delta_v :: vector3d
  basis_u :: vector3d
  basis_v :: vector3d
  basis_w :: vector3d
  defocus_disk_u :: vector3d
  defocus_disk_v :: vector3d
  image_buf :: "color list"
  render_progress :: "int list"
  image_width :: int
  image_height :: int
  samples_per_pixel :: int
  max_depth :: int
  vfov :: real
  lookfrom :: point3d
  lookat :: point3d
  vup :: vector3d
  defocus_angle :: real
  focus_dist :: real
  max_threads :: int

definition initialize :: "camera \<Rightarrow> error + camera" where
  "initialize c =
     (let center' = lookfrom c;
          theta = degrees_to_radians (vfov c);
          h = tan (theta / 2);
          viewport_height = 2.0 * h * focus_dist c;
          viewport_width =
            viewport_height * (real_of_int (image_width c) / real_of_int (image_height c));
          w = unit_vector (vsub (lookfrom c) (lookat c));
          u = unit_vector (cross (vup c) w);
          v = cross w u;
          viewport_u = smul viewport_width u;
          viewport_v = smul viewport_height (vneg v);
          delta_u = vdiv viewport_u (real_of_int (image_width c));
          delta_v = vdiv viewport_v (real_of_int (image_height c));
          viewport_upper_left =
            vsub (vsub (vsub center' (smul (focus_dist c) w)) (vdiv viewport_u 2))
                 (vdiv viewport_v 2);
          defocus_radius = focus_dist c * tan (degrees_to_radians (defocus_angle c / 2));
          c1 = c\<lparr> center := center',
                  basis_w := w, basis_u := u, basis_v := v,
                  pixel_delta_u := delta_u, pixel_delta_v := delta_v,
                  pixel00_loc := vadd viewport_upper_left (smul 0.5 (vadd delta_u delta_v)),
                  defocus_disk_u := smul defocus_radius u,
                  defocus_disk_v := smul defocus_radius v \<rparr>
      in case int_mul (image_height c1) (image_width c1) of
           Inl e \<Rightarrow> Inl e
         | Inr n \<Rightarrow>
             (case resize n (Vec3 0 0 0) (image_buf c1) of
                Inl e \<Rightarrow> Inl e
              | Inr img \<Rightarrow>
                  (case resize (max_threads c1) 0 (render_progress c1) of
                     Inl e \<Rightarrow> Inl e
                   | Inr progress \<Rightarrow>
                       Inr (c1\<lparr> image_buf := fill (Vec3 0 0 0) img,
                                render_progress := fill 0 progress,
                                max_threads :=
                                  (if max_threads c1 > 0 then max_threads c1 else 1) \<rparr>))))"

definition pixel_sample_square :: "camera \<Rightarrow> rng \<Rightarrow> vector3d \<times> rng" where
  "pixel_sample_square c g =
     (case random_double g of
        (d1, g1) \<Rightarrow>
          (case random_double g1 of
             (d2, g2) \<Rightarrow>
               (let px = 0.5 + d1; py = 0.5 + d2
                in (vadd (smul px (pixel_delta_u c)) (smul py (pixel_delta_v c)), g2))))"

text \<open>
  Modelled from the spec: \<^verbatim>\<open>random_in_unit_disk\<close> of \<^verbatim>\<open>vec3.h\<close> ("rejection sampling:
  draw two uniform coordinates in [-1,1], reject and redraw if their squared norm
  \<open>\<ge>\<close> 1"). The loop has no bound: a tape on which every pair is rejected gives
  \<open>None\<close>.
\<close>

definition random_double_range :: "real \<Rightarrow> real \<Rightarrow> rng \<Rightarrow> real \<times> rng" where
  "random_double_range lo hi g = (case random_double g of (d, g') \<Rightarrow> (lo + (hi - lo) * d, g'))"

partial_function (option) random_in_unit_disk :: "rng \<Rightarrow> (vec3 \<times> rng) option" where
  "random_in_unit_disk g =
     (case random_double_range (- 1) 1 g of
        (a, g1) \<Rightarrow>
          (case random_double_range (- 1) 1 g1 of
             (b, g2) \<Rightarrow>
               (if dot (Vec3 a b 0) (Vec3 a b 0) < 1 then Some (Vec3 a b 0, g2)
                else random_in_unit_disk g2)))"

definition defocus_disk_sample :: "camera \<Rightarrow> rng \<Rightarrow> (point3d \<times> rng) option" where
  "defocus_disk_sample c g =
     (case random_in_unit_disk g of
        None \<Rightarrow> None
      | Some (p, g') \<Rightarrow>
          Some (vadd (vadd (center c) (smul (vx p) (defocus_disk_u c)))
                     (smul (vy p) (defocus_disk_v c)), g'))"

definition get_ray :: "camera \<Rightarrow> int \<Rightarrow> int \<Rightarrow> rng \<Rightarrow> (ray \<times> rng) option" where
  "get_ray c i j g =
     (let pixel_center =
            vadd (vadd (pixel00_loc c) (smul (real_of_int i) (pixel_delta_u c)))
                 (smul (real_of_int j) (pixel_delta_v c))
      in case pixel_sample_square c g of
           (offset, g1) \<Rightarrow>
             (let pixel_sample = vadd pixel_center offset
              in if defocus_angle c \<le> 0
                 then Some (Ray (center c) (vsub pixel_sample (center c)), g1)
                 else (case defocus_disk_sample c g1 of
                         None \<Rightarrow> None
                       | Some (ray_origin, g2) \<Rightarrow>
                           Some (Ray ray_origin (vsub pixel_sample ray_origin), g2))))"

section \<open>The worker threads\<close>

text \<open>
  \<^verbatim>\<open>for (int k = lo; k < hi; k++) body\<close>, for a body that changes neither \<^verbatim>\<open>k\<close> nor
  the bound; it stops at the first failure.
\<close>

function for_loop :: "int \<Rightarrow> int \<Rightarrow> (int \<Rightarrow> 's \<Rightarrow> error + 's) \<Rightarrow> 's \<Rightarrow> error + 's" where
  "for_loop lo hi body s =
     (if lo < hi
      then (case body lo s of Inl e \<Rightarrow> Inl e | Inr s' \<Rightarrow> for_loop (lo + 1) hi body s')
      else Inr s)"
  by pat_completeness auto
termination
  by (relation "measure (\<lambda>(lo, hi, body, s). nat (hi - lo))") auto

declare for_loop.simps [simp del]

text \<open>
  One pass of the innermost loop body of \<^verbatim>\<open>render_thread\<close>:
  \<^verbatim>\<open>image[j * image_width + i] += ray_color(get_ray(i, j), max_depth, world)\<close>.
  The draws that this sample receives from the shared generator are the tape
  \<open>rnd i j sample\<close>.
\<close>

definition render_sample ::
  "'m hittable \<Rightarrow> (int \<Rightarrow> int \<Rightarrow> int \<Rightarrow> rng) \<Rightarrow> int \<Rightarrow> int \<Rightarrow> int \<Rightarrow> camera \<Rightarrow> error + camera" where
  "render_sample world rnd j i sample c =
     (case get_ray c i j (rnd i j sample) of
        None \<Rightarrow> Inl Diverges
      | Some (r, g1) \<Rightarrow>
          (case ray_color r (max_depth c) world g1 of
             (col, g2) \<Rightarrow>
               (let idx = j * image_width c + i
                in if 0 \<le> idx \<and> idx < int (length (image_buf c))
                   then Inr (c\<lparr> image_buf :=
                                 (image_buf c)[nat idx := vadd (image_buf c ! nat idx) col] \<rparr>)
                   else Inl OutOfBounds)))"

text \<open>\<^verbatim>\<open>render_progress[threadId] += 1\<close>.\<close>

definition bump_progress :: "int \<Rightarrow> camera \<Rightarrow> error + camera" where
  "bump_progress threadId c =
     (if 0 \<le> threadId \<and> threadId < int (length (render_progress c))
      then Inr (c\<lparr> render_progress :=
                    (render_progress c)[nat threadId := render_progress c ! nat threadId + 1] \<rparr>)
      else Inl OutOfBounds)"

definition render_thread ::
  "'m hittable \<Rightarrow> (int \<Rightarrow> int \<Rightarrow> int \<Rightarrow> rng) \<Rightarrow> int \<Rightarrow> int \<Rightarrow> int \<Rightarrow> camera \<Rightarrow> error + camera" where
  "render_thread world rnd threadId minRow maxRow c =
     for_loop minRow maxRow
       (\<lambda>j cj.
          case for_loop 0 (image_width cj)
                 (\<lambda>i ci. for_loop 0 (samples_per_pixel ci)
                            (\<lambda>sample cs. render_sample world rnd j i sample cs) ci) cj of
            Inl e \<Rightarrow> Inl e
          | Inr c' \<Rightarrow> bump_progress threadId c')
       c"

section \<open>The progress monitor\<close>

text \<open>Conversion of a \<^verbatim>\<open>double\<close> to \<^verbatim>\<open>int\<close>: towards zero.\<close>

definition trunc :: "real \<Rightarrow> int" where
  "trunc x = (if 0 \<le> x then \<lfloor>x\<rfloor> else \<lceil>x\<rceil>)"

text \<open>
  \<^verbatim>\<open>percent = (double)(rawProgress) / image_height * 100\<close>. With \<^verbatim>\<open>image_height\<close> zero
  the quotient is NaN or infinite, and its conversion to \<^verbatim>\<open>int\<close> is undefined. The
  quotient and the product are exact here and rounded in the program, which can
  therefore print one percent less than the model (28 instead of 29 for 29 rows of
  100); with \<^verbatim>\<open>rawProgress = image_height\<close> the program's product is exactly 100, and
  below that it stays below 100, so the test that ends the loop is the same.
\<close>

definition percent_of :: "int \<Rightarrow> int \<Rightarrow> error + int" where
  "percent_of rawProgress height =
     (if height = 0 then Inl UndefinedConversion
      else (let q = trunc (real_of_int rawProgress / real_of_int height * 100)
            in if int_ok q then Inr q else Inl UndefinedConversion))"

text \<open>\<^verbatim>\<open>for (int& n : render_progress) rawProgress += n\<close>.\<close>

fun sum_progress :: "int list \<Rightarrow> int \<Rightarrow> error + int" where
  "sum_progress [] rawProgress = Inr rawProgress"
| "sum_progress (n # ns) rawProgress =
     (case int_add rawProgress n of
        Inl e \<Rightarrow> Inl e
      | Inr rawProgress' \<Rightarrow> sum_progress ns rawProgress')"

text \<open>
  The polling loop of \<^verbatim>\<open>print_render_progress\<close>. It runs while the workers run, so
  what it reads changes between its iterations: \<open>obs\<close> lists the camera as the loop
  finds it at each iteration, \<open>cur\<close> is the camera as of the last iteration, and \<open>out\<close>
  the percentages printed so far (the headline that the function prints first is left
  out). \<open>None\<close>: the loop is still polling when the listed observations end.
\<close>

fun progress_loop ::
  "camera list \<Rightarrow> camera \<Rightarrow> int \<Rightarrow> int \<Rightarrow> int list \<Rightarrow> (error + camera \<times> int \<times> int list) option" where
  "progress_loop obs cur percent lastPercent out =
     (if percent < 100
      then (case obs of
              [] \<Rightarrow> None
            | c # rest \<Rightarrow>
                (case sum_progress (render_progress c) 0 of
                   Inl e \<Rightarrow> Some (Inl e)
                 | Inr rawProgress \<Rightarrow>
                     (case percent_of rawProgress (image_height c) of
                        Inl e \<Rightarrow> Some (Inl e)
                      | Inr percent' \<Rightarrow>
                          if percent' \<noteq> lastPercent
                          then progress_loop rest c percent' percent' (out @ [percent'])
                          else progress_loop rest c percent' lastPercent out)))
      else Some (Inr (cur, percent, out)))"

declare progress_loop.simps [simp del]

definition print_render_progress ::
  "camera list \<Rightarrow> camera \<Rightarrow> (error + camera \<times> int list) option" where
  "print_render_progress obs c =
     (case progress_loop obs c 0 (- 1) [] of
        None \<Rightarrow> None
      | Some (Inl e) \<Rightarrow> Some (Inl e)
      | Some (Inr (c', percent, out)) \<Rightarrow>
          Some (Inr (c'\<lparr> render_progress := fill 0 (render_progress c') \<rparr>, out @ [percent])))"

section \<open>Rendering\<close>

text \<open>
  The arguments \<^verbatim>\<open>(i, minRow, maxRow)\<close> of the threads that the spawn loop of
  \<^verbatim>\<open>render\<close> creates, in the order of their creation. The products and sums of the
  loop stay between zero and \<^verbatim>\<open>image_height\<close> in absolute value, so none overflows.
\<close>

definition worker_args :: "camera \<Rightarrow> (int \<times> int \<times> int) list" where
  "worker_args c =
     map (\<lambda>i. let offset = c_div (image_height c) (max_threads c);
                   minRow = i * offset;
                   maxRow = (if i < max_threads c - 1 then minRow + offset else image_height c)
               in (i, minRow, maxRow))
         [0..max_threads c - 1]"

text \<open>
  The rows \<^verbatim>\<open>[minRow, maxRow)\<close> of a worker, and the framebuffer slots
  \<^verbatim>\<open>j * image_width + i\<close> of the pixels in those rows.
\<close>

definition worker_rows :: "int \<times> int \<times> int \<Rightarrow> int set" where
  "worker_rows a = {fst (snd a)..<snd (snd a)}"

definition worker_slots :: "camera \<Rightarrow> int \<times> int \<times> int \<Rightarrow> int set" where
  "worker_slots c a =
     {p. \<exists>j i. j \<in> worker_rows a \<and> 0 \<le> i \<and> i < image_width c \<and> p = j * image_width c + i}"

text \<open>
  The workers write disjoint parts of the camera, so their effects are composed in
  the order of the spawn loop.
\<close>

fun run_workers ::
  "'m hittable \<Rightarrow> (int \<Rightarrow> int \<Rightarrow> int \<Rightarrow> rng) \<Rightarrow> (int \<times> int \<times> int) list \<Rightarrow> camera \<Rightarrow> error + camera" where
  "run_workers world rnd [] c = Inr c"
| "run_workers world rnd ((threadId, minRow, maxRow) # ws) c =
     (case render_thread world rnd threadId minRow maxRow c of
        Inl e \<Rightarrow> Inl e
      | Inr c' \<Rightarrow> run_workers world rnd ws c')"

text \<open>
  \<^verbatim>\<open>render\<close>: initialise, spawn the workers, poll their progress, join. Once the
  workers are done the counters no longer change, so a monitor that does not leave
  its loop on the final counters never does.
\<close>

definition render ::
  "'m hittable \<Rightarrow> (int \<Rightarrow> int \<Rightarrow> int \<Rightarrow> rng) \<Rightarrow> camera \<Rightarrow> error + camera" where
  "render world rnd c =
     (case initialize c of
        Inl e \<Rightarrow> Inl e
      | Inr c1 \<Rightarrow>
          (case run_workers world rnd (worker_args c1) c1 of
             Inl e \<Rightarrow> Inl e
           | Inr c2 \<Rightarrow>
               (case print_render_progress [c2] c2 of
                  None \<Rightarrow> Inl Diverges
                | Some (Inl e) \<Rightarrow> Inl e
                | Some (Inr (c3, out)) \<Rightarrow> Inr c3)))"

section \<open>The bitmap encoder\<close>

type_synonym byte = "8 word"

text \<open>
  \<^verbatim>\<open>(unsigned char)(x * 255)\<close> for a \<^verbatim>\<open>double\<close>: towards zero, undefined when the result
  is not a value of \<^verbatim>\<open>unsigned char\<close>. The product is exact here and rounded in the
  program, so a byte can differ by one from the program's (152 instead of 153 for
  0.6); the headers of the file do not depend on the pixel bytes.
\<close>

definition to_uchar :: "real \<Rightarrow> error + byte" where
  "to_uchar x =
     (let k = trunc x
      in if 0 \<le> k \<and> k < 256 then Inr (word_of_int k) else Inl UndefinedConversion)"

text \<open>
  \<^verbatim>\<open>get_bitmap_data\<close>: three bytes per pixel, blue first. \<^verbatim>\<open>gamma_correction\<close> is a
  function of \<^verbatim>\<open>color.h\<close>, which is not among the sources: it is a parameter here.
\<close>

fun bitmap_pixels :: "(color \<Rightarrow> int \<Rightarrow> color) \<Rightarrow> int \<Rightarrow> color list \<Rightarrow> error + byte list" where
  "bitmap_pixels gamma_correction samples [] = Inr []"
| "bitmap_pixels gamma_correction samples (pixel # rest) =
     (let pixel_color = gamma_correction pixel samples
      in case to_uchar (vz pixel_color * 255) of
           Inl e \<Rightarrow> Inl e
         | Inr blue \<Rightarrow>
             (case to_uchar (vy pixel_color * 255) of
                Inl e \<Rightarrow> Inl e
              | Inr green \<Rightarrow>
                  (case to_uchar (vx pixel_color * 255) of
                     Inl e \<Rightarrow> Inl e
                   | Inr red \<Rightarrow>
                       (case bitmap_pixels gamma_correction samples rest of
                          Inl e \<Rightarrow> Inl e
                        | Inr bitmap_data \<Rightarrow> Inr (blue # green # red # bitmap_data)))))"

definition get_bitmap_data :: "(color \<Rightarrow> int \<Rightarrow> color) \<Rightarrow> camera \<Rightarrow> error + byte list" where
  "get_bitmap_data gamma_correction c =
     bitmap_pixels gamma_correction (samples_per_pixel c) (image_buf c)"

text \<open>
  The four header bytes that \<^verbatim>\<open>write_image\<close> sets from an \<^verbatim>\<open>int\<close>:
  \<^verbatim>\<open>(unsigned char)(n)\<close>, \<^verbatim>\<open>(unsigned char)(n >> 8)\<close>, \<^verbatim>\<open>(unsigned char)(n >> 16)\<close>,
  \<^verbatim>\<open>(unsigned char)(n >> 24)\<close>. The shift of a signed value is arithmetic, and the
  conversion to \<^verbatim>\<open>unsigned char\<close> keeps the low eight bits.
\<close>

definition le_bytes :: "int \<Rightarrow> byte list" where
  "le_bytes n =
     [word_of_int n, word_of_int (n div 2 ^ 8), word_of_int (n div 2 ^ 16),
      word_of_int (n div 2 ^ 24)]"

text \<open>The number of padding bytes per row, \<^verbatim>\<open>(4 - (image_width * 3) % 4) % 4\<close>.\<close>

definition row_padding :: "camera \<Rightarrow> int" where
  "row_padding c = c_mod (4 - c_mod (image_width c * 3) 4) 4"

text \<open>
  One pass of the row loop: \<^verbatim>\<open>fwrite\<close> of \<^verbatim>\<open>image_width\<close> pixels of row
  \<^verbatim>\<open>image_height - i - 1\<close>, then of the padding. \<open>file\<close> is what has been written so
  far. A read outside the pixel data is reported.
\<close>

definition write_row :: "camera \<Rightarrow> byte list \<Rightarrow> int \<Rightarrow> byte list \<Rightarrow> error + byte list" where
  "write_row c bitmap_data i file =
     (let off = image_width c * (image_height c - i - 1) * 3
      in if 0 \<le> image_width c \<and> 0 \<le> off
            \<and> off + 3 * image_width c \<le> int (length bitmap_data)
         then Inr (file @ take (nat (3 * image_width c)) (drop (nat off) bitmap_data)
                        @ replicate (nat (row_padding c)) 0)
         else Inl OutOfBounds)"

text \<open>
  \<^verbatim>\<open>write_image\<close>, for a file that opens: the result is the sequence of bytes written.
\<close>

definition write_image :: "(color \<Rightarrow> int \<Rightarrow> color) \<Rightarrow> camera \<Rightarrow> error + byte list" where
  "write_image gamma_correction c =
     (case get_bitmap_data gamma_correction c of
        Inl e \<Rightarrow> Inl e
      | Inr bitmap_data \<Rightarrow>
          (case int_mul 3 (image_width c) of
             Inl e \<Rightarrow> Inl e
           | Inr w3 \<Rightarrow>
               (case int_mul w3 (image_height c) of
                  Inl e \<Rightarrow> Inl e
                | Inr data_size \<Rightarrow>
                    (case int_add 54 data_size of
                       Inl e \<Rightarrow> Inl e
                     | Inr file_size \<Rightarrow>
                         (let bmp_header = [66, 77] @ le_bytes file_size @ [0, 0, 0, 0, 54, 0, 0, 0];
                              bmp_info = [40, 0, 0, 0] @ le_bytes (image_width c)
                                         @ le_bytes (image_height c) @ [1, 0, 24, 0]
                                         @ replicate 24 0
                          in for_loop 0 (image_height c) (write_row c bitmap_data)
                               (bmp_header @ bmp_info))))))"

text \<open>A four-byte little-endian field, as a reader of the file decodes it.\<close>

definition le32 :: "byte list \<Rightarrow> int" where
  "le32 bs = uint (bs ! 0) + 2 ^ 8 * uint (bs ! 1) + 2 ^ 16 * uint (bs ! 2) + 2 ^ 24 * uint (bs ! 3)"

text \<open>
  The 54 bytes of \<^verbatim>\<open>bmp_header\<close> and \<^verbatim>\<open>bmp_info\<close> as \<^verbatim>\<open>write_image\<close> writes them when
  the size computation does not overflow.
\<close>

definition bmp_headers :: "camera \<Rightarrow> byte list" where
  "bmp_headers c =
     [66, 77] @ le_bytes (54 + 3 * image_width c * image_height c) @ [0, 0, 0, 0, 54, 0, 0, 0]
     @ [40, 0, 0, 0] @ le_bytes (image_width c) @ le_bytes (image_height c) @ [1, 0, 24, 0]
     @ replicate 24 0"

section \<open>Notions of the claims\<close>

text \<open>
  Two cameras that differ at most in the framebuffer and the progress counters.
\<close>

definition same_config :: "camera \<Rightarrow> camera \<Rightarrow> bool" where
  "same_config s c \<longleftrightarrow>
     s\<lparr> image_buf := image_buf c, render_progress := render_progress c \<rparr> = c"

text \<open>
  What a worker leaves alone: from \<open>s\<close> to \<open>t\<close> the configuration is the same, the two
  vectors keep their lengths, no framebuffer slot outside \<open>A\<close> has changed, and no
  progress counter but \<open>threadId\<close>'s.
\<close>

definition frame_inv :: "int set \<Rightarrow> int \<Rightarrow> camera \<Rightarrow> camera \<Rightarrow> bool" where
  "frame_inv A threadId s t \<longleftrightarrow>
     same_config t s
     \<and> length (image_buf t) = length (image_buf s)
     \<and> (\<forall>p. int p \<notin> A \<longrightarrow> image_buf t ! p = image_buf s ! p)
     \<and> length (render_progress t) = length (render_progress s)
     \<and> (\<forall>q. int q \<noteq> threadId \<longrightarrow> render_progress t ! q = render_progress s ! q)"

text \<open>
  What a pixel receives. Sample number \<open>sample\<close> of pixel \<open>(i, j)\<close> is the colour that
  \<^verbatim>\<open>ray_color\<close> returns for the ray that \<^verbatim>\<open>get_ray\<close> builds from the draws
  \<open>rnd i j sample\<close>, with the camera's \<^verbatim>\<open>max_depth\<close>; there is none when \<^verbatim>\<open>get_ray\<close>
  does not return. \<open>add_samples\<close> adds samples to a colour one after the other, as the
  \<^verbatim>\<open>+=\<close> of \<^verbatim>\<open>render_thread\<close> does, and \<open>pixel_sum\<close> is a colour after the samples
  \<open>0, \<dots>, n - 1\<close> of a pixel have been added to it.
\<close>

definition sample_color ::
  "'m hittable \<Rightarrow> (int \<Rightarrow> int \<Rightarrow> int \<Rightarrow> rng) \<Rightarrow> camera \<Rightarrow> int \<Rightarrow> int \<Rightarrow> int \<Rightarrow> color option" where
  "sample_color world rnd c j i sample =
     (case get_ray c i j (rnd i j sample) of
        None \<Rightarrow> None
      | Some (r, g1) \<Rightarrow> Some (fst (ray_color r (max_depth c) world g1)))"

fun add_samples :: "color option list \<Rightarrow> color \<Rightarrow> color option" where
  "add_samples [] col = Some col"
| "add_samples (None # cs) col = None"
| "add_samples (Some x # cs) col = add_samples cs (vadd col x)"

definition pixel_sum ::
  "'m hittable \<Rightarrow> (int \<Rightarrow> int \<Rightarrow> int \<Rightarrow> rng) \<Rightarrow> camera \<Rightarrow> int \<Rightarrow> int \<Rightarrow> int \<Rightarrow> color \<Rightarrow> color option" where
  "pixel_sum world rnd c j i n col =
     add_samples (map (sample_color world rnd c j i) [0..n - 1]) col"

text \<open>
  The pixel grid of an initialised camera. \<^verbatim>\<open>initialize\<close> places \<^verbatim>\<open>pixel00_loc\<close> half
  a pixel inside the upper left corner of the viewport (its local
  \<^verbatim>\<open>viewport_upper_left\<close>), so that corner is \<^verbatim>\<open>pixel00_loc\<close> minus half of each pixel
  delta. Pixel \<open>(i, j)\<close> occupies the cell with corner \<open>viewport_upper_left + i * du +
  j * dv\<close> and sides \<open>du\<close> and \<open>dv\<close>; its centre is \<open>pixel00_loc + i * du + j * dv\<close>.
\<close>

definition viewport_upper_left :: "camera \<Rightarrow> point3d" where
  "viewport_upper_left c =
     vsub (pixel00_loc c) (smul 0.5 (vadd (pixel_delta_u c) (pixel_delta_v c)))"

definition pixel_corner :: "camera \<Rightarrow> int \<Rightarrow> int \<Rightarrow> point3d" where
  "pixel_corner c i j =
     vadd (vadd (viewport_upper_left c) (smul (real_of_int i) (pixel_delta_u c)))
          (smul (real_of_int j) (pixel_delta_v c))"

definition in_pixel_footprint :: "camera \<Rightarrow> int \<Rightarrow> int \<Rightarrow> point3d \<Rightarrow> bool" where
  "in_pixel_footprint c i j p \<longleftrightarrow>
     (\<exists>s t. 0 \<le> s \<and> s \<le> 1 \<and> 0 \<le> t \<and> t \<le> 1 \<and>
            p = vadd (vadd (pixel_corner c i j) (smul s (pixel_delta_u c)))
                     (smul t (pixel_delta_v c)))"

section \<open>Example inputs\<close>

text \<open>A scene in which every ray hits a half-absorbing mirror, and an empty scene.\<close>

definition mirror_world :: "unit hittable" where
  "mirror_world =
     \<lparr> hit = (\<lambda>r i. Some \<lparr> hit_p = origin r, hit_normal = Vec3 0 1 0, hit_mat = (),
                            hit_t = 1, hit_front_face = True \<rparr>),
       scatter = (\<lambda>m r h g. (Some (Vec3 (1 / 2) (1 / 2) (1 / 2),
                                    Ray (hit_p h) (direction r)), g)) \<rparr>"

definition empty_world :: "unit hittable" where
  "empty_world = \<lparr> hit = (\<lambda>r i. None), scatter = (\<lambda>m r h g. (None, g)) \<rparr>"

text \<open>
  A scene in which every ray is turned straight up where it first hits and then leaves
  the scene: with a budget of two bounces or more, every sample is the colour of the
  sky overhead, \<open>(1/2, 7/10, 1)\<close>.
\<close>

definition sky_world :: "unit hittable" where
  "sky_world =
     \<lparr> hit = (\<lambda>r i. if direction r = Vec3 0 1 0 then None
                      else Some \<lparr> hit_p = origin r, hit_normal = Vec3 0 1 0, hit_mat = (),
                                  hit_t = 1, hit_front_face = True \<rparr>),
       scatter = (\<lambda>m r h g. (Some (Vec3 1 1 1, Ray (hit_p h) (Vec3 0 1 0)), g)) \<rparr>"

text \<open>
  The camera as its member initialisers leave it, a small camera, and the small
  camera as \<^verbatim>\<open>initialize\<close> leaves it.
\<close>

definition default_camera :: camera where
  "default_camera =
     \<lparr> center = Vec3 0 0 0, pixel00_loc = Vec3 0 0 0,
       pixel_delta_u = Vec3 0 0 0, pixel_delta_v = Vec3 0 0 0,
       basis_u = Vec3 0 0 0, basis_v = Vec3 0 0 0, basis_w = Vec3 0 0 0,
       defocus_disk_u = Vec3 0 0 0, defocus_disk_v = Vec3 0 0 0,
       image_buf = [], render_progress = [],
       image_width = 1366, image_height = 720, samples_per_pixel = 10, max_depth = 10,
       vfov = 90, lookfrom = Vec3 0 0 (- 1), lookat = Vec3 0 0 0, vup = Vec3 0 1 0,
       defocus_angle = 0, focus_dist = 10, max_threads = 1 \<rparr>"

definition small_camera :: camera where
  "small_camera =
     default_camera\<lparr> image_width := 2, image_height := 3, samples_per_pixel := 1,
                     max_depth := 2, max_threads := 2 \<rparr>"

definition small_init :: camera where
  "small_init =
     small_camera\<lparr> center := Vec3 0 0 (- 1),
                   basis_w := Vec3 0 0 (- 1), basis_u := Vec3 (- 1) 0 0, basis_v := Vec3 0 1 0,
                   pixel_delta_u := Vec3 (- (20 / 3)) 0 0,
                   pixel_delta_v := Vec3 0 (- (20 / 3)) 0,
                   pixel00_loc := Vec3 (10 / 3) (20 / 3) 9,
                   image_buf := replicate 6 (Vec3 0 0 0),
                   render_progress := replicate 2 0 \<rparr>"

text \<open>
  The small camera with a thread count of zero; the small camera with the eye on the
  look-at point, and that camera as \<^verbatim>\<open>initialize\<close> leaves it in the model (the basis
  vectors and pixel deltas, NaN in the program, are the zero vector here: \<open>x / 0 = 0\<close>
  in HOL).
\<close>

definition zero_threads_camera :: camera where
  "zero_threads_camera = small_camera\<lparr> max_threads := 0 \<rparr>"

definition degenerate_camera :: camera where
  "degenerate_camera = small_camera\<lparr> lookat := Vec3 0 0 (- 1) \<rparr>"

definition degenerate_init :: camera where
  "degenerate_init =
     degenerate_camera\<lparr> center := Vec3 0 0 (- 1), pixel00_loc := Vec3 0 0 (- 1),
                        image_buf := replicate 6 (Vec3 0 0 0),
                        render_progress := replicate 2 0 \<rparr>"

text \<open>The small camera with no sample per pixel, before and after \<^verbatim>\<open>initialize\<close>.\<close>

definition no_samples_camera :: camera where
  "no_samples_camera = small_camera\<lparr> samples_per_pixel := 0 \<rparr>"

definition no_samples_init :: camera where
  "no_samples_init = small_init\<lparr> samples_per_pixel := 0 \<rparr>"

text \<open>A random source whose every draw is one half.\<close>

definition half_draws :: "int \<Rightarrow> int \<Rightarrow> int \<Rightarrow> rng" where
  "half_draws i j sample = (\<lambda>n. 1 / 2)"

section \<open>Properties of the path integrator\<close>

text \<open>
  Claim C2. With a bounce budget \<open>depth \<le> 0\<close>, \<^verbatim>\<open>ray_color\<close> returns black (0,0,0)
  whatever the scene and the ray are, and draws nothing from the random source.
\<close>

theorem ray_color_depth_exhausted:
  "depth \<le> 0 \<Longrightarrow> ray_color r depth world g = (Vec3 0 0 0, g)"
  by (simp add: ray_color.simps)

theorem ray_color_depth_exhausted_witness:
  "(0::int) \<le> 0 \<and>
   ray_color (Ray (Vec3 0 0 0) (Vec3 0 0 1)) 0 mirror_world (\<lambda>n. 0) = (Vec3 0 0 0, \<lambda>n. 0)"
  using ray_color_depth_exhausted [of 0 "Ray (Vec3 0 0 0) (Vec3 0 0 1)" mirror_world "\<lambda>n. 0"]
  by simp

text \<open>
  Claim C3. For a ray that hits nothing, with a positive budget, \<^verbatim>\<open>ray_color\<close> returns
  the blend \<open>(1 - a) * (1,1,1) + a * (0.5,0.7,1.0)\<close> with \<open>a = 0.5 * (y + 1)\<close>, where \<open>y\<close>
  is the vertical component of the normalised ray direction. The colour depends on
  that component alone: two rays that miss, in any two scenes and with any two
  positive budgets, get the same colour as soon as their \<open>y\<close> agree.
\<close>

theorem ray_color_background:
  assumes "0 < depth" and "hit world r (Interval 0.001 Infinity) = None"
  shows "ray_color r depth world g =
           (let a = 0.5 * (vy (unit_vector (direction r)) + 1)
            in (vadd (smul (1 - a) (Vec3 1 1 1)) (smul a (Vec3 0.5 0.7 1.0)), g))
         \<and> (\<forall>r' depth' (world' :: 'n hittable) g'.
               0 < depth' \<and> hit world' r' (Interval 0.001 Infinity) = None
               \<and> vy (unit_vector (direction r')) = vy (unit_vector (direction r)) \<longrightarrow>
               fst (ray_color r' depth' world' g') = fst (ray_color r depth world g))"
  using assms by (simp add: ray_color.simps Let_def)

theorem ray_color_background_witness:
  "(0::int) < 1 \<and> hit empty_world (Ray (Vec3 0 0 0) (Vec3 0 1 0)) (Interval 0.001 Infinity) = None
   \<and> ray_color (Ray (Vec3 0 0 0) (Vec3 0 1 0)) 1 empty_world (\<lambda>n. 0)
       = (Vec3 (1 / 2) (7 / 10) 1, \<lambda>n. 0)
   \<and> (0::int) < 5 \<and> hit empty_world (Ray (Vec3 1 1 1) (Vec3 0 2 0)) (Interval 0.001 Infinity) = None
   \<and> vy (unit_vector (direction (Ray (Vec3 1 1 1) (Vec3 0 2 0))))
       = vy (unit_vector (direction (Ray (Vec3 0 0 0) (Vec3 0 1 0))))
   \<and> fst (ray_color (Ray (Vec3 1 1 1) (Vec3 0 2 0)) 5 empty_world (\<lambda>n. 1))
       = fst (ray_color (Ray (Vec3 0 0 0) (Vec3 0 1 0)) 1 empty_world (\<lambda>n. 0))"
proof -
  have h: "hit empty_world r (Interval 0.001 Infinity) = None" for r
    by (simp add: empty_world_def)
  have y: "vy (unit_vector (Vec3 0 2 0)) = 1" "vy (unit_vector (Vec3 0 1 0)) = 1"
    by (simp_all add: unit_vector_def vdiv_def smul_def vlength_def dot_def)
  note T = ray_color_background [where depth = 1 and world = empty_world
      and r = "Ray (Vec3 0 0 0) (Vec3 0 1 0)" and g = "\<lambda>n. 0" and ?'n = unit, OF _ h]
  have colour: "ray_color (Ray (Vec3 0 0 0) (Vec3 0 1 0)) 1 empty_world (\<lambda>n. 0)
       = (Vec3 (1 / 2) (7 / 10) 1, \<lambda>n. 0)"
    using T [THEN conjunct1] y by (simp add: Let_def vadd_def smul_def)
  have same: "fst (ray_color (Ray (Vec3 1 1 1) (Vec3 0 2 0)) 5 empty_world (\<lambda>n. 1))
       = fst (ray_color (Ray (Vec3 0 0 0) (Vec3 0 1 0)) 1 empty_world (\<lambda>n. 0))"
    using T [THEN conjunct2, rule_format, where r' = "Ray (Vec3 1 1 1) (Vec3 0 2 0)"
        and depth' = 5 and world' = empty_world and g' = "\<lambda>n. 1"] h y
    by simp
  from h y colour same show ?thesis by simp
qed

lemma ray_color_calls_unfold:
  "ray_color_calls r depth world g = [(r, depth)] \<or>
   (0 < depth \<and> (\<exists>r' g'. ray_color_calls r depth world g =
                              (r, depth) # ray_color_calls r' (depth - 1) world g'))"
  by (subst (1 2) ray_color_calls.simps) (auto split: option.split prod.split)

lemma ray_color_calls_length:
  "length (ray_color_calls r depth world g) \<le> nat depth + 1"
proof (induction "nat depth" arbitrary: r depth g)
  case 0
  then have "depth \<le> 0" by simp
  then show ?case by (subst ray_color_calls.simps) simp
next
  case (Suc n)
  from ray_color_calls_unfold [of r depth world g] show ?case
  proof (elim disjE conjE exE)
    assume "ray_color_calls r depth world g = [(r, depth)]"
    then show ?thesis by simp
  next
    fix r' g'
    assume pos: "0 < depth"
      and step: "ray_color_calls r depth world g =
                   (r, depth) # ray_color_calls r' (depth - 1) world g'"
    from Suc.hyps(2) have "n = nat (depth - 1)" by simp
    from Suc.hyps(1) [OF this]
    have "length (ray_color_calls r' (depth - 1) world g') \<le> nat (depth - 1) + 1" .
    with pos step show ?thesis by simp
  qed
qed

lemma ray_color_calls_budgets:
  "map snd (ray_color_calls r depth world g) =
     map (\<lambda>k. depth - int k) [0..<length (ray_color_calls r depth world g)]"
proof (induction "nat depth" arbitrary: r depth g)
  case 0
  then have "depth \<le> 0" by simp
  then show ?case by (subst (1 2) ray_color_calls.simps) simp
next
  case (Suc n)
  from ray_color_calls_unfold [of r depth world g] show ?case
  proof (elim disjE conjE exE)
    assume "ray_color_calls r depth world g = [(r, depth)]"
    then show ?thesis by simp
  next
    fix r' g'
    assume pos: "0 < depth"
      and step: "ray_color_calls r depth world g =
                   (r, depth) # ray_color_calls r' (depth - 1) world g'"
    from Suc.hyps(2) have "n = nat (depth - 1)" by simp
    from Suc.hyps(1) [OF this]
    have IH: "map snd (ray_color_calls r' (depth - 1) world g') =
                map (\<lambda>k. depth - 1 - int k)
                    [0..<length (ray_color_calls r' (depth - 1) world g')]" .
    have "map (\<lambda>k. depth - int k) [0..<Suc m] =
            depth # map (\<lambda>k. depth - 1 - int k) [0..<m]" for m
      by (simp only: upt_conv_Cons [of 0 "Suc m"] map_Suc_upt [symmetric]) (simp add: o_def)
    with IH step show ?thesis by simp
  qed
qed

text \<open>
  The definition of \<^const>\<open>ray_color\<close> comes with its call relation: \<open>ray_color_rel y x\<close>
  holds when the call with the arguments \<open>x\<close> makes the recursive call with the
  arguments \<open>y\<close>, and \<open>ray_color_dom x\<close> when every chain of nested calls under \<open>x\<close>
  ends.
\<close>

lemma ray_color_rel_budget:
  assumes "ray_color_rel y (r, depth, world, g)"
  shows "fst (snd y) = depth - 1" and "0 < depth" and "fst (snd (snd y)) = world"
  using assms by (auto elim: ray_color_rel.cases)

lemma ray_color_rel_chain:
  "(ray_color_rel ^^ n) y (r, depth, world, g) \<Longrightarrow>
     int n \<le> max depth 0 \<and> fst (snd y) = depth - int n"
proof (induction n arbitrary: r depth g)
  case 0
  then show ?case by auto
next
  case (Suc n)
  from Suc.prems obtain b where chain: "(ray_color_rel ^^ n) y b"
    and call: "ray_color_rel b (r, depth, world, g)"
    by auto
  obtain r' d' w' g' where b: "b = (r', d', w', g')" by (cases b)
  from ray_color_rel_budget [OF call] b have d': "d' = depth - 1" "0 < depth" "w' = world"
    by simp_all
  from Suc.IH [of r' d' g'] chain b d'(3)
  have "int n \<le> max d' 0 \<and> fst (snd y) = d' - int n" by simp
  with d' show ?case by auto
qed

lemma ray_color_terminates: "ray_color_dom x"
proof -
  have sub: "{(y, x). ray_color_rel y x} \<subseteq> measure (\<lambda>(r, depth, world, g). nat depth)"
    by (auto elim!: ray_color_rel.cases)
  have "wf {(y, x). ray_color_rel y (x :: ray \<times> int \<times> 'a hittable \<times> rng)}"
    by (rule wf_subset [OF wf_measure sub])
  then have "wfp (ray_color_rel :: (ray \<times> int \<times> 'a hittable \<times> rng) \<Rightarrow> _)"
    by (simp add: wfp_def)
  then show ?thesis by (rule accp_wfpD)
qed

lemma ray_color_rel_mirror:
  "ray_color_rel (Ray (Vec3 0 0 0) (Vec3 0 0 1), 2, mirror_world, \<lambda>n. 0)
                 (Ray (Vec3 0 0 0) (Vec3 0 0 1), 3, mirror_world, \<lambda>n. 0)"
  using ray_color_rel.intros [of 3 mirror_world "Ray (Vec3 0 0 0) (Vec3 0 0 1)"
      "\<lparr> hit_p = Vec3 0 0 0, hit_normal = Vec3 0 1 0, hit_mat = (), hit_t = 1, hit_front_face = True \<rparr>"
      "Some (Vec3 (1 / 2) (1 / 2) (1 / 2), Ray (Vec3 0 0 0) (Vec3 0 0 1))" "\<lambda>n. 0" "\<lambda>n. 0"
      "(Vec3 (1 / 2) (1 / 2) (1 / 2), Ray (Vec3 0 0 0) (Vec3 0 0 1))" "Vec3 (1 / 2) (1 / 2) (1 / 2)"
      "Ray (Vec3 0 0 0) (Vec3 0 0 1)"]
  by (simp add: mirror_world_def)

text \<open>
  Claim C5. \<^verbatim>\<open>ray_color\<close> terminates for every ray, scene and budget \<open>depth\<close>, whatever
  the scene does with the rays. Every recursive call is made with the budget
  \<open>depth - 1\<close>, and only by a call whose budget is positive: a call with an exhausted
  budget returns without recursing. A call nested \<open>n\<close> levels under the initial one
  has the budget \<open>depth - n\<close>, and \<open>n\<close> is at most \<open>depth\<close> (zero for a negative
  \<open>depth\<close>). The invocations that a call nests, as \<^const>\<open>ray_color_calls\<close> lists them,
  are at most \<open>depth\<close> recursive ones under the initial call, with the budgets
  \<open>depth\<close>, \<open>depth - 1\<close>, \<open>depth - 2\<close>, ...
\<close>

theorem ray_color_recursion_bounded:
  "ray_color_dom (r, depth, world, g)
   \<and> (\<forall>y. ray_color_rel y (r, depth, world, g) \<longrightarrow> fst (snd y) = depth - 1 \<and> 0 < depth)
   \<and> (\<forall>n y. (ray_color_rel ^^ n) y (r, depth, world, g) \<longrightarrow>
          int n \<le> max depth 0 \<and> fst (snd y) = depth - int n)
   \<and> length (ray_color_calls r depth world g) \<le> nat depth + 1
   \<and> map snd (ray_color_calls r depth world g) =
       map (\<lambda>k. depth - int k) [0..<length (ray_color_calls r depth world g)]
   \<and> (depth \<le> 0 \<longrightarrow> ray_color_calls r depth world g = [(r, depth)])"
proof (intro conjI allI impI)
  show "ray_color_dom (r, depth, world, g)" by (rule ray_color_terminates)
next
  fix y assume "ray_color_rel y (r, depth, world, g)"
  then show "fst (snd y) = depth - 1" "0 < depth" by (rule ray_color_rel_budget)+
next
  fix n y assume "(ray_color_rel ^^ n) y (r, depth, world, g)"
  from ray_color_rel_chain [OF this]
  show "int n \<le> max depth 0" "fst (snd y) = depth - int n" by simp_all
next
  show "length (ray_color_calls r depth world g) \<le> nat depth + 1"
    by (rule ray_color_calls_length)
next
  show "map snd (ray_color_calls r depth world g) =
       map (\<lambda>k. depth - int k) [0..<length (ray_color_calls r depth world g)]"
    by (rule ray_color_calls_budgets)
next
  assume "depth \<le> 0"
  then show "ray_color_calls r depth world g = [(r, depth)]"
    by (simp add: ray_color_calls.simps [of r depth])
qed

theorem ray_color_recursion_bounded_witness:
  "ray_color_rel (Ray (Vec3 0 0 0) (Vec3 0 0 1), 2, mirror_world, \<lambda>n. 0)
                 (Ray (Vec3 0 0 0) (Vec3 0 0 1), 3, mirror_world, \<lambda>n. 0)
   \<and> fst (snd (Ray (Vec3 0 0 0) (Vec3 0 0 1), 2 :: int, mirror_world, \<lambda>n :: nat. 0 :: real)) = 3 - 1
   \<and> (0::int) < 3
   \<and> (ray_color_rel ^^ Suc 0) (Ray (Vec3 0 0 0) (Vec3 0 0 1), 2, mirror_world, \<lambda>n. 0)
                               (Ray (Vec3 0 0 0) (Vec3 0 0 1), 3, mirror_world, \<lambda>n. 0)
   \<and> int (Suc 0) \<le> max 3 0
   \<and> length (ray_color_calls (Ray (Vec3 0 0 0) (Vec3 0 0 1)) 3 mirror_world (\<lambda>n. 0)) = 4
   \<and> map snd (ray_color_calls (Ray (Vec3 0 0 0) (Vec3 0 0 1)) 3 mirror_world (\<lambda>n. 0))
       = [3, 2, 1, 0]
   \<and> (0::int) \<le> 0
   \<and> ray_color_calls (Ray (Vec3 0 0 0) (Vec3 0 0 1)) 0 mirror_world (\<lambda>n. 0)
       = [(Ray (Vec3 0 0 0) (Vec3 0 0 1), 0)]"
proof -
  note T3 = ray_color_recursion_bounded [of "Ray (Vec3 0 0 0) (Vec3 0 0 1)" 3 mirror_world "\<lambda>n. 0"]
  note T0 = ray_color_recursion_bounded [of "Ray (Vec3 0 0 0) (Vec3 0 0 1)" 0 mirror_world "\<lambda>n. 0"]
  have len: "length (ray_color_calls (Ray (Vec3 0 0 0) (Vec3 0 0 1)) 3 mirror_world (\<lambda>n. 0)) = 4"
    by (simp add: ray_color_calls.simps mirror_world_def)
  have chain: "(ray_color_rel ^^ Suc 0) (Ray (Vec3 0 0 0) (Vec3 0 0 1), 2, mirror_world, \<lambda>n. 0)
                               (Ray (Vec3 0 0 0) (Vec3 0 0 1), 3, mirror_world, \<lambda>n. 0)"
    using ray_color_rel_mirror by (simp add: eq_OO)
  from T3 [THEN conjunct2, THEN conjunct1, rule_format, OF ray_color_rel_mirror]
  have call: "fst (snd (Ray (Vec3 0 0 0) (Vec3 0 0 1), 2 :: int, mirror_world, \<lambda>n :: nat. 0 :: real))
                = 3 - 1" "(0::int) < 3"
    by simp_all
  from T3 [THEN conjunct2, THEN conjunct2, THEN conjunct1, rule_format, OF chain]
  have nested: "int (Suc 0) \<le> max 3 0" by simp
  from T3 [THEN conjunct2, THEN conjunct2, THEN conjunct2, THEN conjunct2, THEN conjunct1] len
  have budgets: "map snd (ray_color_calls (Ray (Vec3 0 0 0) (Vec3 0 0 1)) 3 mirror_world (\<lambda>n. 0))
       = [3, 2, 1, 0]"
    by (simp add: upt_conv_Cons)
  from T0 [THEN conjunct2, THEN conjunct2, THEN conjunct2, THEN conjunct2, THEN conjunct2]
  have exhausted: "ray_color_calls (Ray (Vec3 0 0 0) (Vec3 0 0 1)) 0 mirror_world (\<lambda>n. 0)
       = [(Ray (Vec3 0 0 0) (Vec3 0 0 1), 0)]"
    by simp
  from ray_color_rel_mirror call chain nested len budgets exhausted show ?thesis
    by (intro conjI) simp_all
qed

section \<open>The rows and the framebuffer slots of the workers\<close>

lemma c_div_nonneg: "0 \<le> a \<Longrightarrow> 0 < b \<Longrightarrow> c_div a b = a div b"
  by (simp add: c_div_def sgn_if)

lemma length_worker_args: "length (worker_args c) = nat (max_threads c)"
  by (simp add: worker_args_def)

lemma worker_args_nth:
  assumes "k < nat (max_threads c)"
  shows "worker_args c ! k =
           (int k, int k * c_div (image_height c) (max_threads c),
            if int k < max_threads c - 1
            then int k * c_div (image_height c) (max_threads c)
                   + c_div (image_height c) (max_threads c)
            else image_height c)"
  using assms by (simp add: worker_args_def Let_def)

lemma slot_unique:
  fixes j j' i i' w :: int
  assumes "j * w + i = j' * w + i'" "0 \<le> i" "i < w" "0 \<le> i'" "i' < w"
  shows "j = j' \<and> i = i'"
proof -
  have "j = (j * w + i) div w" using assms(2,3) by simp
  also have "\<dots> = (j' * w + i') div w" by (simp only: assms(1))
  also have "\<dots> = j'" using assms(4,5) by simp
  finally have "j = j'" .
  with assms(1) show ?thesis by simp
qed

lemma div_facts:
  fixes H T :: int
  assumes "1 \<le> H" "1 \<le> T"
  shows "0 \<le> H div T" "T * (H div T) \<le> H"
proof -
  show "0 \<le> H div T" using assms by (simp add: pos_imp_zdiv_nonneg_iff)
  have "T * (H div T) + H mod T = H" by simp
  moreover have "0 \<le> H mod T" using assms by simp
  ultimately show "T * (H div T) \<le> H" by linarith
qed

lemma div_bracket:
  fixes x ofs n :: int
  assumes "0 \<le> x" "x < n * ofs" "0 \<le> n" "0 \<le> ofs"
  shows "0 \<le> x div ofs" "x div ofs < n" "x div ofs * ofs \<le> x" "x < (x div ofs + 1) * ofs"
proof -
  have pos: "0 < ofs"
  proof (rule ccontr)
    assume "\<not> 0 < ofs"
    with assms(4) have "ofs = 0" by simp
    with assms(1,2) show False by simp
  qed
  have split: "ofs * (x div ofs) + x mod ofs = x" by (rule mult_div_mod_eq)
  have m: "0 \<le> x mod ofs" "x mod ofs < ofs" using pos by simp_all
  show "0 \<le> x div ofs" using assms(1) pos by (simp add: pos_imp_zdiv_nonneg_iff)
  have "ofs * (x div ofs) \<le> x" using split m by linarith
  then show le: "x div ofs * ofs \<le> x" by (simp add: mult.commute)
  have "x < ofs * (x div ofs) + ofs" using split m by linarith
  then show "x < (x div ofs + 1) * ofs" by (simp add: algebra_simps)
  show "x div ofs < n"
  proof (rule ccontr)
    assume "\<not> x div ofs < n"
    then have "n \<le> x div ofs" by simp
    then have "n * ofs \<le> x div ofs * ofs" using assms(4) by (rule mult_right_mono)
    with le assms(2) show False by linarith
  qed
qed

lemma rows_partition:
  fixes H T ofs :: int
  assumes H: "1 \<le> H" and T: "1 \<le> T"
  defines "ofs \<equiv> H div T"
  defines "lo \<equiv> \<lambda>k::int. k * ofs"
  defines "hi \<equiv> \<lambda>k::int. if k < T - 1 then k * ofs + ofs else H"
  shows "\<And>k. 0 \<le> k \<Longrightarrow> k < T \<Longrightarrow> 0 \<le> lo k \<and> lo k \<le> hi k \<and> hi k \<le> H"
    and "\<And>a b. 0 \<le> a \<Longrightarrow> a < b \<Longrightarrow> b < T \<Longrightarrow> hi a \<le> lo b"
    and "\<And>x. 0 \<le> x \<Longrightarrow> x < H \<Longrightarrow> \<exists>k. 0 \<le> k \<and> k < T \<and> lo k \<le> x \<and> x < hi k"
proof -
  have o0: "0 \<le> ofs" and oT: "T * ofs \<le> H"
    using div_facts [OF H T] by (simp_all add: ofs_def)
  have mono: "a * ofs \<le> b * ofs" if "a \<le> b" for a b :: int
    using that o0 by (rule mult_right_mono)
  { fix k :: int assume k: "0 \<le> k" "k < T"
    have "0 \<le> lo k" using k o0 by (simp add: lo_def)
    moreover have "lo k \<le> hi k \<and> hi k \<le> H"
    proof (cases "k < T - 1")
      case True
      then have "(k + 1) * ofs \<le> T * ofs" by (intro mono) simp
      with True o0 oT show ?thesis by (simp add: lo_def hi_def algebra_simps)
    next
      case False
      have "k * ofs \<le> T * ofs" using k by (intro mono) simp
      with False oT show ?thesis by (simp add: lo_def hi_def)
    qed
    ultimately show "0 \<le> lo k \<and> lo k \<le> hi k \<and> hi k \<le> H" by simp }
  { fix a b :: int assume ab: "0 \<le> a" "a < b" "b < T"
    have "(a + 1) * ofs \<le> b * ofs" using ab by (intro mono) simp
    with ab show "hi a \<le> lo b" by (simp add: lo_def hi_def algebra_simps) }
  { fix x :: int assume x: "0 \<le> x" "x < H"
    show "\<exists>k. 0 \<le> k \<and> k < T \<and> lo k \<le> x \<and> x < hi k"
    proof (cases "x < (T - 1) * ofs")
      case True
      from div_bracket [OF x(1) True _ o0] T
      have "0 \<le> x div ofs" "x div ofs < T - 1" "x div ofs * ofs \<le> x" "x < (x div ofs + 1) * ofs"
        by simp_all
      then have "0 \<le> x div ofs \<and> x div ofs < T \<and> lo (x div ofs) \<le> x \<and> x < hi (x div ofs)"
        by (simp add: lo_def hi_def algebra_simps)
      then show ?thesis ..
    next
      case False
      with x T have "0 \<le> T - 1 \<and> T - 1 < T \<and> lo (T - 1) \<le> x \<and> x < hi (T - 1)"
        by (simp add: lo_def hi_def)
      then show ?thesis ..
    qed }
qed

lemma worker_args_rows:
  assumes H: "1 \<le> image_height c" and T: "1 \<le> max_threads c"
  shows "\<And>k. k < length (worker_args c) \<Longrightarrow>
            fst (worker_args c ! k) = int k \<and>
            0 \<le> fst (snd (worker_args c ! k)) \<and>
            fst (snd (worker_args c ! k)) \<le> snd (snd (worker_args c ! k)) \<and>
            snd (snd (worker_args c ! k)) \<le> image_height c"
    and "\<And>a b. a < b \<Longrightarrow> b < length (worker_args c) \<Longrightarrow>
            snd (snd (worker_args c ! a)) \<le> fst (snd (worker_args c ! b))"
    and "\<And>x. 0 \<le> x \<Longrightarrow> x < image_height c \<Longrightarrow>
            \<exists>k < length (worker_args c). x \<in> worker_rows (worker_args c ! k)"
    and "\<And>k. Suc k < length (worker_args c) \<Longrightarrow>
            snd (snd (worker_args c ! k)) = fst (snd (worker_args c ! Suc k))"
    and "fst (snd (hd (worker_args c))) = 0"
    and "snd (snd (last (worker_args c))) = image_height c"
proof -
  have d: "c_div (image_height c) (max_threads c) = image_height c div max_threads c"
    using H T by (simp add: c_div_nonneg)
  note P = rows_partition [OF H T]
  have len: "length (worker_args c) = nat (max_threads c)" by (rule length_worker_args)
  have nth: "worker_args c ! k =
      (int k, int k * (image_height c div max_threads c),
       if int k < max_threads c - 1
       then int k * (image_height c div max_threads c) + image_height c div max_threads c
       else image_height c)" if "k < length (worker_args c)" for k
    using that worker_args_nth [of k c] by (simp add: len d)
  show "fst (worker_args c ! k) = int k \<and>
            0 \<le> fst (snd (worker_args c ! k)) \<and>
            fst (snd (worker_args c ! k)) \<le> snd (snd (worker_args c ! k)) \<and>
            snd (snd (worker_args c ! k)) \<le> image_height c" if "k < length (worker_args c)" for k
    using P(1) [of "int k"] that by (simp add: nth len)
  show "snd (snd (worker_args c ! a)) \<le> fst (snd (worker_args c ! b))"
    if "a < b" "b < length (worker_args c)" for a b
  proof -
    from that have ab: "int a < max_threads c - 1" "int b < max_threads c" "int a < int b"
      by (simp_all add: len)
    from that have "a < length (worker_args c)" by simp
    with P(2) [of "int a" "int b"] ab that(2) show ?thesis by (simp add: nth)
  qed
  show "\<exists>k < length (worker_args c). x \<in> worker_rows (worker_args c ! k)"
    if "0 \<le> x" "x < image_height c" for x
  proof -
    from P(3) [OF that] obtain k where k: "0 \<le> k" "k < max_threads c"
      "k * (image_height c div max_threads c) \<le> x"
      "x < (if k < max_threads c - 1
            then k * (image_height c div max_threads c) + image_height c div max_threads c
            else image_height c)" by blast
    then have "nat k < length (worker_args c)" by (simp add: len)
    moreover from this k have "x \<in> worker_rows (worker_args c ! nat k)"
      by (simp add: nth worker_rows_def split: if_splits)
    ultimately show ?thesis by blast
  qed
  show "snd (snd (worker_args c ! k)) = fst (snd (worker_args c ! Suc k))"
    if "Suc k < length (worker_args c)" for k
  proof -
    from that have "int k < max_threads c - 1" "k < length (worker_args c)"
      by (simp_all add: len)
    with that show ?thesis by (simp add: nth algebra_simps)
  qed
  have ne: "worker_args c \<noteq> []" using T len by auto
  then have "hd (worker_args c) = worker_args c ! 0" by (simp add: hd_conv_nth)
  then show "fst (snd (hd (worker_args c))) = 0" using ne by (simp add: nth)
  have "last (worker_args c) = worker_args c ! (length (worker_args c) - 1)"
    using ne by (simp add: last_conv_nth)
  then show "snd (snd (last (worker_args c))) = image_height c"
    using ne T by (simp add: nth) (simp add: len)
qed

lemma worker_rows_disjoint:
  assumes "1 \<le> image_height c" "1 \<le> max_threads c"
    and "a < length (worker_args c)" "b < length (worker_args c)" "a \<noteq> b"
  shows "worker_rows (worker_args c ! a) \<inter> worker_rows (worker_args c ! b) = {}"
proof -
  have ord: "worker_rows (worker_args c ! a') \<inter> worker_rows (worker_args c ! b') = {}"
    if "a' < b'" "b' < length (worker_args c)" for a' b'
    using worker_args_rows(2) [OF assms(1,2) that] by (auto simp: worker_rows_def)
  from assms(5) consider "a < b" | "b < a" by linarith
  then show ?thesis
  proof cases
    case 1
    then show ?thesis using assms(4) by (rule ord)
  next
    case 2
    then have "worker_rows (worker_args c ! b) \<inter> worker_rows (worker_args c ! a) = {}"
      using assms(3) by (rule ord)
    then show ?thesis by blast
  qed
qed

lemma worker_rows_union:
  assumes "1 \<le> image_height c" "1 \<le> max_threads c"
  shows "(\<Union>a \<in> set (worker_args c). worker_rows a) = {0..<image_height c}"
proof (intro set_eqI iffI)
  fix x
  assume "x \<in> (\<Union>a \<in> set (worker_args c). worker_rows a)"
  then obtain a where a: "a \<in> set (worker_args c)" "x \<in> worker_rows a" by blast
  from a(1) obtain k where k: "k < length (worker_args c)" "a = worker_args c ! k"
    by (auto simp: in_set_conv_nth)
  from worker_args_rows(1) [OF assms k(1)] a(2) k(2)
  show "x \<in> {0..<image_height c}" by (simp add: worker_rows_def)
next
  fix x
  assume "x \<in> {0..<image_height c}"
  then have "0 \<le> x" "x < image_height c" by simp_all
  from worker_args_rows(3) [OF assms this]
  obtain k where "k < length (worker_args c)" "x \<in> worker_rows (worker_args c ! k)" by blast
  then show "x \<in> (\<Union>a \<in> set (worker_args c). worker_rows a)"
    by (auto intro: nth_mem)
qed

lemma worker_slots_iff:
  "p \<in> worker_slots c a \<longleftrightarrow>
     (\<exists>j i. j \<in> worker_rows a \<and> 0 \<le> i \<and> i < image_width c \<and> p = j * image_width c + i)"
  by (simp add: worker_slots_def)

lemma worker_slots_disjoint:
  assumes "1 \<le> image_height c" "1 \<le> max_threads c"
    and "a < length (worker_args c)" "b < length (worker_args c)" "a \<noteq> b"
  shows "worker_slots c (worker_args c ! a) \<inter> worker_slots c (worker_args c ! b) = {}"
proof (rule ccontr)
  assume "worker_slots c (worker_args c ! a) \<inter> worker_slots c (worker_args c ! b) \<noteq> {}"
  then obtain p where "p \<in> worker_slots c (worker_args c ! a)" "p \<in> worker_slots c (worker_args c ! b)"
    by blast
  then obtain j i j' i' where
    j: "j \<in> worker_rows (worker_args c ! a)" "0 \<le> i" "i < image_width c" "p = j * image_width c + i"
    and j': "j' \<in> worker_rows (worker_args c ! b)" "0 \<le> i'" "i' < image_width c" "p = j' * image_width c + i'"
    unfolding worker_slots_iff by blast
  from j(4) j'(4) have "j * image_width c + i = j' * image_width c + i'" by simp
  from slot_unique [OF this j(2,3) j'(2,3)] have "j = j'" by simp
  with j(1) j'(1) worker_rows_disjoint [OF assms] show False by blast
qed

lemma worker_slots_cover:
  assumes H: "1 \<le> image_height c" and T: "1 \<le> max_threads c"
    and p: "0 \<le> p" "p < image_width c * image_height c"
  shows "\<exists>!k. k < length (worker_args c) \<and> p \<in> worker_slots c (worker_args c ! k)"
proof -
  have W: "0 < image_width c"
  proof (rule ccontr)
    assume "\<not> 0 < image_width c"
    then have "image_width c * image_height c \<le> 0" using H by (simp add: mult_le_0_iff)
    with p show False by simp
  qed
  have j0: "0 \<le> p div image_width c" using p(1) W by (simp add: pos_imp_zdiv_nonneg_iff)
  have jH: "p div image_width c < image_height c"
  proof (rule ccontr)
    assume "\<not> p div image_width c < image_height c"
    then have "image_height c \<le> p div image_width c" by simp
    then have "image_width c * image_height c \<le> image_width c * (p div image_width c)"
      using W by (simp add: mult_left_mono)
    moreover have "image_width c * (p div image_width c) + p mod image_width c = p"
      by (rule mult_div_mod_eq)
    moreover have "0 \<le> p mod image_width c" using W by simp
    ultimately show False using p(2) by linarith
  qed
  from worker_args_rows(3) [OF H T j0 jH]
  obtain k where k: "k < length (worker_args c)" "p div image_width c \<in> worker_rows (worker_args c ! k)"
    by blast
  have "p = p div image_width c * image_width c + p mod image_width c" by simp
  moreover have "0 \<le> p mod image_width c" "p mod image_width c < image_width c" using W by simp_all
  ultimately have in_k: "p \<in> worker_slots c (worker_args c ! k)"
    using k(2) unfolding worker_slots_iff by blast
  show ?thesis
  proof (rule ex1I [of _ k])
    show "k < length (worker_args c) \<and> p \<in> worker_slots c (worker_args c ! k)"
      using k(1) in_k by simp
  next
    fix k'
    assume k': "k' < length (worker_args c) \<and> p \<in> worker_slots c (worker_args c ! k')"
    show "k' = k"
    proof (rule ccontr)
      assume "k' \<noteq> k"
      with worker_slots_disjoint [OF H T _ k(1), of k'] k' in_k show False by blast
    qed
  qed
qed

subsection \<open>What a worker leaves alone\<close>

lemma same_configD:
  assumes "same_config t s"
  shows "image_width t = image_width s" "samples_per_pixel t = samples_per_pixel s"
    "image_height t = image_height s" "max_threads t = max_threads s"
proof -
  from assms have eq: "t\<lparr> image_buf := image_buf s, render_progress := render_progress s \<rparr> = s"
    by (simp add: same_config_def)
  from arg_cong [OF eq, of image_width] show "image_width t = image_width s" by simp
  from arg_cong [OF eq, of samples_per_pixel] show "samples_per_pixel t = samples_per_pixel s" by simp
  from arg_cong [OF eq, of image_height] show "image_height t = image_height s" by simp
  from arg_cong [OF eq, of max_threads] show "max_threads t = max_threads s" by simp
qed

lemma same_config_refl: "same_config s s"
  by (simp add: same_config_def)

lemma same_config_trans:
  assumes "same_config a b" "same_config b c"
  shows "same_config a c"
proof -
  from assms(1) have eq: "a\<lparr> image_buf := image_buf b, render_progress := render_progress b \<rparr> = b"
    by (simp add: same_config_def)
  from arg_cong [OF eq, of "\<lambda>r. r\<lparr> image_buf := image_buf c, render_progress := render_progress c \<rparr>"]
  have "a\<lparr> image_buf := image_buf c, render_progress := render_progress c \<rparr>
      = b\<lparr> image_buf := image_buf c, render_progress := render_progress c \<rparr>"
    by simp
  with assms(2) show ?thesis by (simp add: same_config_def)
qed


lemma for_loop_invariant:
  assumes "for_loop lo hi body s = Inr s'"
    and "I s"
    and "\<And>k t t'. lo \<le> k \<Longrightarrow> k < hi \<Longrightarrow> I t \<Longrightarrow> body k t = Inr t' \<Longrightarrow> I t'"
  shows "I s'"
  using assms
proof (induction lo hi body s rule: for_loop.induct)
  case (1 lo hi body s)
  show ?case
  proof (cases "lo < hi")
    case False
    with "1.prems"(1,2) show ?thesis by (simp add: for_loop.simps [of lo hi])
  next
    case True
    show ?thesis
    proof (cases "body lo s")
      case (Inl e)
      with True "1.prems"(1) show ?thesis by (simp add: for_loop.simps [of lo hi])
    next
      case (Inr t)
      with True "1.prems"(1) have run: "for_loop (lo + 1) hi body t = Inr s'"
        by (simp add: for_loop.simps [of lo hi])
      have "I t" using "1.prems"(3) [OF _ True "1.prems"(2) Inr] by simp
      show ?thesis
      proof (rule "1.IH" [OF True Inr run \<open>I t\<close>])
        fix k t1 t1'
        assume "lo + 1 \<le> k" "k < hi" "I t1" "body k t1 = Inr t1'"
        then show "I t1'" using "1.prems"(3) [of k t1 t1'] by simp
      qed
    qed
  qed
qed

lemma render_sample_frame:
  assumes "render_sample world rnd j i sample s = Inr s'"
  shows "same_config s' s \<and> render_progress s' = render_progress s
       \<and> length (image_buf s') = length (image_buf s)
       \<and> (\<forall>p. int p \<noteq> j * image_width s + i \<longrightarrow> image_buf s' ! p = image_buf s ! p)"
  using assms
  by (auto simp: render_sample_def same_config_def Let_def split: option.splits prod.splits if_splits)

lemma bump_progress_frame:
  assumes "bump_progress threadId s = Inr s'"
  shows "same_config s' s \<and> image_buf s' = image_buf s
       \<and> length (render_progress s') = length (render_progress s)
       \<and> (\<forall>q. int q \<noteq> threadId \<longrightarrow> render_progress s' ! q = render_progress s ! q)"
  using assms by (auto simp: bump_progress_def same_config_def split: if_splits)


lemma frame_inv_sample:
  assumes "frame_inv A threadId s t" "render_sample world rnd j i k t = Inr t'"
    "j * image_width s + i \<in> A"
  shows "frame_inv A threadId s t'"
proof -
  from assms(1) have w: "image_width t = image_width s"
    by (simp add: frame_inv_def same_configD)
  from render_sample_frame [OF assms(2)]
  have f: "same_config t' t" "render_progress t' = render_progress t"
    "length (image_buf t') = length (image_buf t)"
    "\<And>p. int p \<noteq> j * image_width s + i \<Longrightarrow> image_buf t' ! p = image_buf t ! p"
    by (simp_all add: w)
  from assms(1) have g: "same_config t s" "length (image_buf t) = length (image_buf s)"
    "\<And>p. int p \<notin> A \<Longrightarrow> image_buf t ! p = image_buf s ! p"
    "length (render_progress t) = length (render_progress s)"
    "\<And>q. int q \<noteq> threadId \<Longrightarrow> render_progress t ! q = render_progress s ! q"
    by (simp_all add: frame_inv_def)
  have "image_buf t' ! p = image_buf s ! p" if "int p \<notin> A" for p
  proof -
    from that assms(3) have "int p \<noteq> j * image_width s + i" by auto
    then show ?thesis using f(4) g(3) that by simp
  qed
  with f g same_config_trans [OF f(1) g(1)] show ?thesis
    by (simp add: frame_inv_def)
qed

lemma frame_inv_bump:
  assumes "frame_inv A threadId s t" "bump_progress threadId t = Inr t'"
  shows "frame_inv A threadId s t'"
proof -
  from bump_progress_frame [OF assms(2)]
  have f: "same_config t' t" "image_buf t' = image_buf t"
    "length (render_progress t') = length (render_progress t)"
    "\<And>q. int q \<noteq> threadId \<Longrightarrow> render_progress t' ! q = render_progress t ! q"
    by simp_all
  from assms(1) have g: "same_config t s" "length (image_buf t) = length (image_buf s)"
    "\<And>p. int p \<notin> A \<Longrightarrow> image_buf t ! p = image_buf s ! p"
    "length (render_progress t) = length (render_progress s)"
    "\<And>q. int q \<noteq> threadId \<Longrightarrow> render_progress t ! q = render_progress s ! q"
    by (simp_all add: frame_inv_def)
  from f g same_config_trans [OF f(1) g(1)] show ?thesis
    by (simp add: frame_inv_def)
qed


lemma render_thread_frame:
  assumes run: "render_thread world rnd threadId minRow maxRow s = Inr s'"
  shows "frame_inv (worker_slots s (threadId, minRow, maxRow)) threadId s s'"
proof -
  let ?A = "worker_slots s (threadId, minRow, maxRow)"
  let ?I = "frame_inv ?A threadId s"
  have I0: "?I s" by (simp add: frame_inv_def same_config_refl)
  have col: "?I t'"
    if "minRow \<le> j" "j < maxRow" "0 \<le> i" "i < image_width s" "?I t"
      "for_loop 0 (samples_per_pixel t)
         (\<lambda>sample cs. render_sample world rnd j i sample cs) t = Inr t'" for j i t t'
  proof (rule for_loop_invariant [OF that(6), where I = ?I])
    show "?I t" by (rule that(5))
  next
    fix k u u'
    assume k: "0 \<le> k" "k < samples_per_pixel t" and u: "?I u"
      "render_sample world rnd j i k u = Inr u'"
    from that(1-4) have "j * image_width s + i \<in> ?A"
      unfolding worker_slots_iff worker_rows_def by force
    with u show "?I u'" by (rule frame_inv_sample)
  qed
  have row: "?I t'"
    if "minRow \<le> j" "j < maxRow" "?I t"
      "for_loop 0 (image_width t)
         (\<lambda>i ci. for_loop 0 (samples_per_pixel ci)
                    (\<lambda>sample cs. render_sample world rnd j i sample cs) ci) t = Inr t'" for j t t'
  proof (rule for_loop_invariant [OF that(4), where I = ?I])
    show "?I t" by (rule that(3))
  next
    fix i u u'
    assume i: "0 \<le> i" "i < image_width t" and u: "?I u"
      "for_loop 0 (samples_per_pixel u)
         (\<lambda>sample cs. render_sample world rnd j i sample cs) u = Inr u'"
    from that(3) have "image_width t = image_width s"
      by (simp add: frame_inv_def same_configD)
    with i have "i < image_width s" by simp
    from col [OF that(1,2) i(1) this u] show "?I u'" .
  qed
  show ?thesis
  proof (rule for_loop_invariant [OF run [unfolded render_thread_def], where I = ?I])
    show "?I s" by (rule I0)
  next
    fix j t t'
    assume j: "minRow \<le> j" "j < maxRow" and It: "?I t"
      and body: "(case for_loop 0 (image_width t)
                 (\<lambda>i ci. for_loop 0 (samples_per_pixel ci)
                            (\<lambda>sample cs. render_sample world rnd j i sample cs) ci) t of
            Inl e \<Rightarrow> Inl e
          | Inr c' \<Rightarrow> bump_progress threadId c') = Inr t'"
    from body obtain u where u: "for_loop 0 (image_width t)
                 (\<lambda>i ci. for_loop 0 (samples_per_pixel ci)
                            (\<lambda>sample cs. render_sample world rnd j i sample cs) ci) t = Inr u"
      and b: "bump_progress threadId u = Inr t'"
      by (auto split: sum.splits)
    from row [OF j It u] have "?I u" .
    then show "?I t'" using b by (rule frame_inv_bump)
  qed
qed


lemma worker_frame:
  assumes "same_config s c"
    and "render_thread world rnd (fst a) (fst (snd a)) (snd (snd a)) s = Inr s'"
  shows "length (image_buf s') = length (image_buf s) \<and>
          (\<forall>p. int p \<notin> worker_slots c a \<longrightarrow> image_buf s' ! p = image_buf s ! p)"
  using render_thread_frame [OF assms(2)] same_configD(1) [OF assms(1)]
  by (simp add: frame_inv_def worker_slots_def)

subsection \<open>The example camera, evaluated\<close>

lemmas vec_defs = unit_vector_def vdiv_def vlength_def dot_def vsub_def smul_def cross_def vneg_def
  vadd_def vmul_def

lemma for_loop_step:
  "lo < hi \<Longrightarrow> for_loop lo hi body s =
     (case body lo s of Inl e \<Rightarrow> Inl e | Inr s' \<Rightarrow> for_loop (lo + 1) hi body s')"
  by (subst for_loop.simps) simp

lemma for_loop_done: "\<not> lo < hi \<Longrightarrow> for_loop lo hi body s = Inr s"
  by (subst for_loop.simps) simp

lemmas camera_eval = small_init_def small_camera_def default_camera_def

lemmas render_thread_eval = render_thread_def for_loop_step for_loop_done render_sample_def
  get_ray_def pixel_sample_square_def random_double_def ray_color.simps bump_progress_def
  half_draws_def Let_def

lemma initialize_small_camera: "initialize small_camera = Inr small_init"
  by (simp add: initialize_def camera_eval Let_def int_mul_def int_ok_def resize_def fill_def
      degrees_to_radians_def tan_45 vec_defs)

lemma worker_args_small_init: "worker_args small_init = [(0, 0, 1), (1, 1, 3)]"
  by (simp add: camera_eval worker_args_def c_div_def Let_def upto_rec1)

section \<open>The point that get_ray samples\<close>

text \<open>
  \<^verbatim>\<open>get_ray\<close> adds \<open>(0.5 + u) * du + (0.5 + v) * dv\<close> to the centre of pixel \<open>(i, j)\<close>,
  not to its corner: measured from the corner of the pixel the offset is
  \<open>(1 + u) * du + (1 + v) * dv\<close>. The sample point (the origin of the ray plus its
  direction) lies in the cell of pixel \<open>(i + 1, j + 1)\<close>, and outside the cell of
  pixel \<open>(i, j)\<close> unless both draws are zero.
\<close>

lemma vec3_eq_iff: "a = b \<longleftrightarrow> vx a = vx b \<and> vy a = vy b \<and> vz a = vz b"
  by (cases a; cases b) simp

lemma initialize_upper_left:
  assumes "initialize c = Inr c1"
  shows "viewport_upper_left c1 =
     (let theta = degrees_to_radians (vfov c);
          h = tan (theta / 2);
          viewport_height = 2.0 * h * focus_dist c;
          viewport_width =
            viewport_height * (real_of_int (image_width c) / real_of_int (image_height c));
          w = unit_vector (vsub (lookfrom c) (lookat c));
          u = unit_vector (cross (vup c) w);
          v = cross w u;
          viewport_u = smul viewport_width u;
          viewport_v = smul viewport_height (vneg v)
      in vsub (vsub (vsub (lookfrom c) (smul (focus_dist c) w)) (vdiv viewport_u 2))
              (vdiv viewport_v 2))"
  using assms
  by (auto simp: initialize_def Let_def viewport_upper_left_def vec3_eq_iff vadd_def vsub_def smul_def
      split: sum.splits)

lemma get_ray_sample_point:
  assumes "get_ray c i j g = Some (r, g')"
  shows "vadd (origin r) (direction r) =
           vadd (vadd (pixel_corner c i j) (smul (1 + g 0) (pixel_delta_u c)))
                (smul (1 + g 1) (pixel_delta_v c))"
  using assms
  by (auto simp: get_ray_def pixel_sample_square_def random_double_def Let_def pixel_corner_def
      viewport_upper_left_def vec3_eq_iff vadd_def vsub_def smul_def algebra_simps
      split: if_splits option.splits prod.splits)

lemma get_ray_sample_next_pixel:
  assumes "get_ray c i j g = Some (r, g')" "0 \<le> g 0" "g 0 < 1" "0 \<le> g 1" "g 1 < 1"
  shows "in_pixel_footprint c (i + 1) (j + 1) (vadd (origin r) (direction r))"
proof -
  have "vadd (origin r) (direction r) =
          vadd (vadd (pixel_corner c (i + 1) (j + 1)) (smul (g 0) (pixel_delta_u c)))
               (smul (g 1) (pixel_delta_v c))"
    unfolding get_ray_sample_point [OF assms(1)]
    by (simp add: pixel_corner_def vec3_eq_iff vadd_def smul_def algebra_simps)
  with assms(2-5) show ?thesis
    unfolding in_pixel_footprint_def
    by (intro exI [of _ "g 0"] exI [of _ "g 1"]) simp
qed


lemma independent_deltas:
  fixes a b :: real
  assumes "vadd (smul a du) (smul b dv) = Vec3 0 0 0" and "cross du dv \<noteq> Vec3 0 0 0"
  shows "a = 0 \<and> b = 0"
proof -
  from assms(1) have e: "a * vx du + b * vx dv = 0" "a * vy du + b * vy dv = 0"
    "a * vz du + b * vz dv = 0"
    by (simp_all add: vadd_def smul_def)
  have a1: "a * (vy du * vz dv - vz du * vy dv)
              = (a * vy du + b * vy dv) * vz dv - (a * vz du + b * vz dv) * vy dv"
    and a2: "a * (vz du * vx dv - vx du * vz dv)
              = (a * vz du + b * vz dv) * vx dv - (a * vx du + b * vx dv) * vz dv"
    and a3: "a * (vx du * vy dv - vy du * vx dv)
              = (a * vx du + b * vx dv) * vy dv - (a * vy du + b * vy dv) * vx dv"
    by (simp_all add: algebra_simps)
  have b1: "b * (vy du * vz dv - vz du * vy dv)
              = (a * vz du + b * vz dv) * vy du - (a * vy du + b * vy dv) * vz du"
    and b2: "b * (vz du * vx dv - vx du * vz dv)
              = (a * vx du + b * vx dv) * vz du - (a * vz du + b * vz dv) * vx du"
    and b3: "b * (vx du * vy dv - vy du * vx dv)
              = (a * vy du + b * vy dv) * vx du - (a * vx du + b * vx dv) * vy du"
    by (simp_all add: algebra_simps)
  from assms(2) consider "vy du * vz dv - vz du * vy dv \<noteq> 0"
    | "vz du * vx dv - vx du * vz dv \<noteq> 0" | "vx du * vy dv - vy du * vx dv \<noteq> 0"
    by (auto simp: cross_def)
  then show ?thesis
  proof cases
    case 1
    have "a * (vy du * vz dv - vz du * vy dv) = 0" "b * (vy du * vz dv - vz du * vy dv) = 0"
      unfolding a1 b1 e by simp_all
    with 1 show ?thesis by simp
  next
    case 2
    have "a * (vz du * vx dv - vx du * vz dv) = 0" "b * (vz du * vx dv - vx du * vz dv) = 0"
      unfolding a2 b2 e by simp_all
    with 2 show ?thesis by simp
  next
    case 3
    have "a * (vx du * vy dv - vy du * vx dv) = 0" "b * (vx du * vy dv - vy du * vx dv) = 0"
      unfolding a3 b3 e by simp_all
    with 3 show ?thesis by simp
  qed
qed

lemma get_ray_sample_outside_pixel:
  assumes ray: "get_ray c i j g = Some (r, g')"
    and draws: "0 \<le> g 0" "0 \<le> g 1" "0 < g 0 \<or> 0 < g 1"
    and indep: "cross (pixel_delta_u c) (pixel_delta_v c) \<noteq> Vec3 0 0 0"
  shows "\<not> in_pixel_footprint c i j (vadd (origin r) (direction r))"
proof
  assume "in_pixel_footprint c i j (vadd (origin r) (direction r))"
  then obtain s t where st: "0 \<le> s" "s \<le> 1" "0 \<le> t" "t \<le> 1"
    and p: "vadd (origin r) (direction r) =
              vadd (vadd (pixel_corner c i j) (smul s (pixel_delta_u c)))
                   (smul t (pixel_delta_v c))"
    unfolding in_pixel_footprint_def by blast
  from p have "vadd (smul (1 + g 0 - s) (pixel_delta_u c)) (smul (1 + g 1 - t) (pixel_delta_v c))
                 = Vec3 0 0 0"
    unfolding get_ray_sample_point [OF ray]
    by (simp add: vec3_eq_iff vadd_def smul_def algebra_simps)
  from independent_deltas [OF this indep] have "1 + g 0 - s = 0" "1 + g 1 - t = 0" by simp_all
  with st draws show False by linarith
qed

text \<open>
  Claim C4 says that the point sampled by \<^verbatim>\<open>get_ray\<close> is the top left corner of pixel
  \<open>(i, j)\<close> plus \<open>(0.5 + u) * du + (0.5 + v) * dv\<close> and therefore lies inside the square
  footprint of pixel \<open>(i, j)\<close>. The code does not do that. For the small camera, pixel
  \<open>(0, 0)\<close> and two draws of one half, the sampled point is \<open>(-10/3, 0, 9)\<close>: the centre
  of pixel \<open>(1, 1)\<close>, a pixel and a half away from the corner \<open>(20/3, 10, 9)\<close> of pixel
  \<open>(0, 0)\<close> along each axis, and outside the footprint of pixel \<open>(0, 0)\<close>.
\<close>

theorem get_ray_sample_misses_pixel:
  "initialize small_camera = Inr small_init
   \<and> get_ray small_init 0 0 (half_draws 0 0 0)
       = Some (Ray (Vec3 0 0 (- 1)) (Vec3 (- (10 / 3)) 0 10), half_draws 0 0 0)
   \<and> pixel_corner small_init 0 0 = Vec3 (20 / 3) 10 9
   \<and> pixel_corner small_init 1 1 = Vec3 0 (10 / 3) 9
   \<and> vadd (Vec3 0 0 (- 1)) (Vec3 (- (10 / 3)) 0 10) = Vec3 (- (10 / 3)) 0 9
   \<and> \<not> in_pixel_footprint small_init 0 0 (Vec3 (- (10 / 3)) 0 9)
   \<and> in_pixel_footprint small_init 1 1 (Vec3 (- (10 / 3)) 0 9)"
proof -
  have ray: "get_ray small_init 0 0 (half_draws 0 0 0)
       = Some (Ray (Vec3 0 0 (- 1)) (Vec3 (- (10 / 3)) 0 10), half_draws 0 0 0)"
    by (simp add: get_ray_def pixel_sample_square_def random_double_def half_draws_def Let_def
        camera_eval vec_defs)
  have point: "vadd (Vec3 0 0 (- 1)) (Vec3 (- (10 / 3)) 0 10) = Vec3 (- (10 / 3)) 0 9"
    by (simp add: vadd_def)
  have corners: "pixel_corner small_init 0 0 = Vec3 (20 / 3) 10 9"
    "pixel_corner small_init 1 1 = Vec3 0 (10 / 3) 9"
    by (simp_all add: pixel_corner_def viewport_upper_left_def camera_eval vec_defs)
  have indep: "cross (pixel_delta_u small_init) (pixel_delta_v small_init) \<noteq> Vec3 0 0 0"
    by (simp add: camera_eval cross_def)
  have draws: "0 \<le> half_draws 0 0 0 0" "half_draws 0 0 0 0 < 1"
    "0 \<le> half_draws 0 0 0 1" "half_draws 0 0 0 1 < 1" "0 < half_draws 0 0 0 0 \<or> 0 < half_draws 0 0 0 1"
    by (simp_all add: half_draws_def)
  from get_ray_sample_outside_pixel [OF ray draws(1,3,5) indep]
  have out: "\<not> in_pixel_footprint small_init 0 0 (Vec3 (- (10 / 3)) 0 9)"
    by (simp add: point)
  from get_ray_sample_next_pixel [OF ray draws(1-4)]
  have next_pixel: "in_pixel_footprint small_init 1 1 (Vec3 (- (10 / 3)) 0 9)"
    by (simp add: point)
  from initialize_small_camera ray corners point out next_pixel show ?thesis by simp
qed

section \<open>Initialisation and the render as a whole\<close>

lemma fill_resize:
  "resize n d xs = Inr ys \<Longrightarrow> fill d ys = replicate (nat n) d"
  by (auto simp: resize_def fill_def map_replicate_const replicate_add [symmetric] min_def
      split: if_splits)

lemma resize_Inl: "resize n d xs = Inl e \<longleftrightarrow> n < 0 \<and> e = LengthError"
  by (auto simp: resize_def)

lemma resize_Inr: "0 \<le> n \<Longrightarrow> \<exists>ys. resize n d xs = Inr ys"
  by (simp add: resize_def)

lemma initialize_buffers:
  assumes "initialize c = Inr c1"
  shows "image_buf c1 = replicate (nat (image_height c * image_width c)) (Vec3 0 0 0)"
    and "render_progress c1 = replicate (nat (max_threads c)) 0"
    and "max_threads c1 = (if max_threads c > 0 then max_threads c else 1)"
    and "image_height c1 = image_height c" and "image_width c1 = image_width c"
    and "samples_per_pixel c1 = samples_per_pixel c"
  using assms
  by (auto simp: initialize_def Let_def int_mul_def dest!: fill_resize split: sum.splits if_splits)


lemma initialize_forgets:
  "initialize (c\<lparr> image_buf := im, render_progress := pr \<rparr>) = initialize c"
  by (simp add: initialize_def Let_def int_mul_def resize_def fill_def map_replicate_const
      replicate_add [symmetric] min_def)

lemma initialize_succeeds:
  assumes "0 \<le> image_height c * image_width c" "image_height c * image_width c < 2 ^ 31"
    and "0 \<le> max_threads c"
  shows "\<exists>c1. initialize c = Inr c1"
  using assms by (simp add: initialize_def Let_def int_mul_def int_ok_def resize_def)

lemma worker_args_cong:
  "image_height a = image_height b \<Longrightarrow> max_threads a = max_threads b \<Longrightarrow>
   worker_args a = worker_args b"
  by (simp add: worker_args_def Let_def)

subsection \<open>Renders of the example cameras\<close>

lemmas monitor_eval = print_render_progress_def progress_loop.simps int_add_def int_ok_def
  percent_of_def trunc_def fill_def

lemma render_thread_mirror_0:
  "render_thread mirror_world half_draws 0 0 1 small_init =
     Inr (small_init\<lparr> render_progress := [1, 0] \<rparr>)"
  by (simp add: camera_eval render_thread_eval mirror_world_def vec_defs eval_nat_numeral)

lemma render_thread_mirror_1:
  "render_thread mirror_world half_draws 1 1 3 (small_init\<lparr> render_progress := [1, 0] \<rparr>) =
     Inr (small_init\<lparr> render_progress := [1, 2] \<rparr>)"
  by (simp add: camera_eval render_thread_eval mirror_world_def vec_defs eval_nat_numeral)

lemma print_render_progress_small:
  "print_render_progress [small_init\<lparr> render_progress := [1, 2] \<rparr>]
      (small_init\<lparr> render_progress := [1, 2] \<rparr>) = Some (Inr (small_init, [100, 100]))"
  by (simp add: camera_eval monitor_eval eval_nat_numeral)

lemma render_small_camera: "render mirror_world half_draws small_camera = Inr small_init"
  by (simp add: render_def initialize_small_camera worker_args_small_init
      render_thread_mirror_0 render_thread_mirror_1 print_render_progress_small)


lemma initialize_degenerate_camera: "initialize degenerate_camera = Inr degenerate_init"
  by (simp add: initialize_def degenerate_init_def degenerate_camera_def camera_eval Let_def
      int_mul_def int_ok_def resize_def fill_def degrees_to_radians_def tan_45 vec_defs)

lemma worker_args_degenerate_init: "worker_args degenerate_init = [(0, 0, 1), (1, 1, 3)]"
  by (simp add: degenerate_init_def degenerate_camera_def camera_eval worker_args_def c_div_def
      Let_def upto_rec1)

lemma render_thread_degenerate_0:
  "render_thread mirror_world half_draws 0 0 1 degenerate_init =
     Inr (degenerate_init\<lparr> render_progress := [1, 0] \<rparr>)"
  by (simp add: degenerate_init_def degenerate_camera_def camera_eval render_thread_eval
      mirror_world_def vec_defs eval_nat_numeral)

lemma render_thread_degenerate_1:
  "render_thread mirror_world half_draws 1 1 3 (degenerate_init\<lparr> render_progress := [1, 0] \<rparr>) =
     Inr (degenerate_init\<lparr> render_progress := [1, 2] \<rparr>)"
  by (simp add: degenerate_init_def degenerate_camera_def camera_eval render_thread_eval
      mirror_world_def vec_defs eval_nat_numeral)

lemma print_render_progress_degenerate:
  "print_render_progress [degenerate_init\<lparr> render_progress := [1, 2] \<rparr>]
      (degenerate_init\<lparr> render_progress := [1, 2] \<rparr>) = Some (Inr (degenerate_init, [100, 100]))"
  by (simp add: degenerate_init_def degenerate_camera_def camera_eval monitor_eval eval_nat_numeral)

lemma render_degenerate_camera:
  "render mirror_world half_draws degenerate_camera = Inr degenerate_init"
  by (simp add: render_def initialize_degenerate_camera worker_args_degenerate_init
      render_thread_degenerate_0 render_thread_degenerate_1 print_render_progress_degenerate)

subsection \<open>The buffers at the start of a render\<close>

text \<open>
  Claim C10. Every call to \<^verbatim>\<open>render\<close> starts from a framebuffer that is black in every
  slot and from progress counters that are all zero: \<^verbatim>\<open>initialize\<close>, which \<^verbatim>\<open>render\<close>
  runs before it spawns a worker, leaves exactly \<open>image_height * image_width\<close> black
  pixels and \<open>max_threads\<close> zero counters whatever the two vectors held before, and
  when it fails \<^verbatim>\<open>render\<close> fails with it and runs no worker. So what \<^verbatim>\<open>render\<close> returns
  does not depend on what the framebuffer and the counters held when it was called.
\<close>

theorem render_resets_buffers:
  "initialize (c\<lparr> image_buf := im, render_progress := pr \<rparr>) = initialize c
   \<and> render world rnd (c\<lparr> image_buf := im, render_progress := pr \<rparr>) = render world rnd c
   \<and> (\<forall>c1. initialize c = Inr c1 \<longrightarrow>
          image_buf c1 = replicate (nat (image_height c * image_width c)) (Vec3 0 0 0)
          \<and> render_progress c1 = replicate (nat (max_threads c)) 0)
   \<and> (\<forall>e. initialize c = Inl e \<longrightarrow> render world rnd c = Inl e)"
  using initialize_buffers(1,2) [of c]
  by (simp add: initialize_forgets render_def)


theorem render_resets_buffers_witness:
  "initialize (small_camera\<lparr> image_buf := [Vec3 1 1 1], render_progress := [7, 7, 7] \<rparr>)
     = Inr small_init
   \<and> image_buf small_init = replicate 6 (Vec3 0 0 0)
   \<and> render_progress small_init = replicate 2 0
   \<and> render mirror_world half_draws
         (small_camera\<lparr> image_buf := [Vec3 1 1 1], render_progress := [7, 7, 7] \<rparr>)
     = Inr small_init
   \<and> initialize (small_camera\<lparr> image_width := - 1 \<rparr>) = Inl LengthError
   \<and> render mirror_world half_draws (small_camera\<lparr> image_width := - 1 \<rparr>) = Inl LengthError"
proof -
  note T = render_resets_buffers [where c = small_camera and im = "[Vec3 1 1 1]"
      and pr = "[7, 7, 7]" and world = mirror_world and rnd = half_draws]
  note U = render_resets_buffers [where c = "small_camera\<lparr> image_width := - 1 \<rparr>"
      and im = "[]" and pr = "[]" and world = mirror_world and rnd = half_draws]
  have bad: "initialize (small_camera\<lparr> image_width := - 1 \<rparr>) = Inl LengthError"
    by (simp add: initialize_def camera_eval Let_def int_mul_def int_ok_def resize_def)
  from U bad have "render mirror_world half_draws (small_camera\<lparr> image_width := - 1 \<rparr>)
      = Inl LengthError"
    by simp
  with T bad initialize_small_camera render_small_camera show ?thesis
    by (simp add: camera_eval)
qed

subsection \<open>A thread count of zero\<close>

text \<open>
  Claim C7 says that with \<open>max_threads \<le> 0\<close> \<^verbatim>\<open>render\<close> coerces the thread count to at
  least one before the workers are spawned, and that every worker's write to
  \<^verbatim>\<open>render_progress[threadId]\<close> is within the bounds of the vector. The count is
  coerced, but only after the vector has been resized to the count as it was given.
  For \<open>max_threads = 0\<close> the vector is empty, one worker is spawned for all the rows,
  and its first \<^verbatim>\<open>render_progress[0] += 1\<close> is outside the vector.
\<close>

theorem render_zero_threads_out_of_bounds:
  "max_threads zero_threads_camera = 0
   \<and> initialize zero_threads_camera
       = Inr (small_init\<lparr> render_progress := [], max_threads := 1 \<rparr>)
   \<and> worker_args (small_init\<lparr> render_progress := [], max_threads := 1 \<rparr>) = [(0, 0, 3)]
   \<and> bump_progress 0 (small_init\<lparr> render_progress := [], max_threads := 1 \<rparr>) = Inl OutOfBounds
   \<and> render mirror_world half_draws zero_threads_camera = Inl OutOfBounds"
proof -
  have i: "initialize zero_threads_camera
       = Inr (small_init\<lparr> render_progress := [], max_threads := 1 \<rparr>)"
    by (simp add: initialize_def zero_threads_camera_def camera_eval Let_def int_mul_def int_ok_def
        resize_def fill_def degrees_to_radians_def tan_45 vec_defs)
  have w: "worker_args (small_init\<lparr> render_progress := [], max_threads := 1 \<rparr>) = [(0, 0, 3)]"
    by (simp add: camera_eval worker_args_def c_div_def Let_def upto_rec1)
  have t: "render_thread mirror_world half_draws 0 0 3
             (small_init\<lparr> render_progress := [], max_threads := 1 \<rparr>) = Inl OutOfBounds"
    by (simp add: camera_eval render_thread_eval mirror_world_def vec_defs eval_nat_numeral)
  have b: "bump_progress 0 (small_init\<lparr> render_progress := [], max_threads := 1 \<rparr>)
             = Inl OutOfBounds"
    by (simp add: bump_progress_def)
  from i w t b show ?thesis
    by (simp add: render_def zero_threads_camera_def)
qed

section \<open>The progress monitor's loop\<close>

lemma percent_of_full: "h \<noteq> 0 \<Longrightarrow> percent_of h h = Inr 100"
  by (simp add: percent_of_def trunc_def int_ok_def)

lemma percent_of_below:
  assumes "0 \<le> raw" "raw < h"
  shows "\<exists>q. percent_of raw h = Inr q \<and> q < 100"
proof -
  from assms have h: "0 < h" by simp
  let ?x = "real_of_int raw / real_of_int h * 100"
  have x0: "0 \<le> ?x" using assms h by simp
  have x1: "?x < 100" using assms h by (simp add: field_simps)
  have "trunc ?x = \<lfloor>?x\<rfloor>" using x0 by (simp add: trunc_def)
  moreover have "0 \<le> \<lfloor>?x\<rfloor>" using x0 by simp
  moreover have "\<lfloor>?x\<rfloor> < 100" using x1 by (simp add: floor_less_iff)
  ultimately show ?thesis using h by (simp add: percent_of_def Let_def int_ok_def)
qed

lemma progress_loop_exit:
  assumes "percent < 100" and "sum_progress (render_progress c) 0 = Inr (image_height c)"
    and "image_height c \<noteq> 0"
  shows "progress_loop (c # rest) cur percent lastPercent out =
           Some (Inr (c, 100, if lastPercent = 100 then out else out @ [100]))"
  using assms
  by (simp add: progress_loop.simps [of "c # rest"] progress_loop.simps [of rest c 100]
      percent_of_full)

lemma progress_loop_observed:
  "progress_loop obs cur percent lastPercent out = Some (Inr (c', percent', out')) \<Longrightarrow>
   c' \<in> set (cur # obs) \<and> 100 \<le> percent'"
proof (induction obs arbitrary: cur percent lastPercent out)
  case Nil
  then show ?case by (simp add: progress_loop.simps [of "[]"] split: if_splits)
next
  case (Cons d rest)
  show ?case
  proof (cases "percent < 100")
    case False
    with Cons.prems show ?thesis by (simp add: progress_loop.simps [of "d # rest"])
  next
    case True
    from Cons.prems True obtain p l o' where
      "progress_loop rest d p l o' = Some (Inr (c', percent', out'))"
      by (auto simp: progress_loop.simps [of "d # rest"] split: sum.splits if_splits)
    from Cons.IH [OF this] show ?thesis by auto
  qed
qed

lemma progress_loop_terminates:
  assumes "sum_progress (render_progress c) 0 = Inr (image_height c)" and "image_height c \<noteq> 0"
  shows "\<exists>r. progress_loop (pre @ c # post) cur percent lastPercent out = Some r"
proof (induction pre arbitrary: cur percent lastPercent out)
  case Nil
  show ?case
  proof (cases "percent < 100")
    case True
    from progress_loop_exit [OF True assms] show ?thesis by simp
  next
    case False
    then show ?thesis by (simp add: progress_loop.simps [of "c # post"])
  qed
next
  case (Cons d pre)
  show ?case
  proof (cases "percent < 100")
    case False
    then show ?thesis by (simp add: progress_loop.simps [of "d # pre @ c # post"])
  next
    case True
    then show ?thesis
      using Cons.IH
      by (simp add: progress_loop.simps [of "d # pre @ c # post"] split: sum.splits)
  qed
qed

lemma progress_loop_keeps_polling:
  assumes "\<forall>d \<in> set obs. \<exists>raw. sum_progress (render_progress d) 0 = Inr raw
                                 \<and> 0 \<le> raw \<and> raw < image_height d"
    and "percent < 100"
  shows "progress_loop obs cur percent lastPercent out = None"
  using assms
proof (induction obs arbitrary: cur percent lastPercent out)
  case Nil
  then show ?case by (simp add: progress_loop.simps [of "[]"])
next
  case (Cons d rest)
  from Cons.prems(1) obtain raw where raw: "sum_progress (render_progress d) 0 = Inr raw"
    "0 \<le> raw" "raw < image_height d" by auto
  from percent_of_below [OF raw(2,3)] obtain q where q: "percent_of raw (image_height d) = Inr q"
    "q < 100" by blast
  from Cons.prems(1) have rest: "\<forall>d \<in> set rest. \<exists>raw. sum_progress (render_progress d) 0 = Inr raw
                                 \<and> 0 \<le> raw \<and> raw < image_height d" by simp
  have A: "progress_loop rest cur' q l o' = None" for cur' l o'
    by (rule Cons.IH [OF rest q(2)])
  have step: "progress_loop (d # rest) cur percent lastPercent out =
      (if q \<noteq> lastPercent then progress_loop rest d q q (out @ [q])
       else progress_loop rest d q lastPercent out)"
    using Cons.prems(2) raw(1) q(1) by (subst progress_loop.simps) simp
  show ?case unfolding step by (simp only: A if_cancel)
qed


lemma progress_loop_polled:
  assumes "progress_loop obs cur percent lastPercent out = Some (Inr (c', percent', out'))"
    and "percent < 100"
  shows "c' \<in> set obs"
proof (cases obs)
  case Nil
  with assms show ?thesis by (simp add: progress_loop.simps [of "[]"])
next
  case (Cons d rest)
  with assms obtain p l o' where
    "progress_loop rest d p l o' = Some (Inr (c', percent', out'))"
    by (auto simp: progress_loop.simps [of "d # rest"] split: sum.splits if_splits)
  from progress_loop_observed [OF this] Cons show ?thesis by simp
qed

lemma print_render_progress_result:
  assumes "print_render_progress obs c0 = Some (Inr (c', out'))"
  shows "\<exists>d \<in> set obs. c' = d\<lparr> render_progress := fill 0 (render_progress d) \<rparr>"
proof -
  from assms obtain d p o' where
    loop: "progress_loop obs c0 0 (- 1) [] = Some (Inr (d, p, o'))"
    and c': "c' = d\<lparr> render_progress := fill 0 (render_progress d) \<rparr>"
    by (auto simp: print_render_progress_def split: option.splits sum.splits)
  from progress_loop_polled [OF loop] have "d \<in> set obs" by simp
  with c' show ?thesis by blast
qed

text \<open>
  Claim C8. The polling loop of \<^verbatim>\<open>print_render_progress\<close> writes nothing to the shared
  state of the render: it reads the progress counters and \<^verbatim>\<open>image_height\<close>, and the
  camera it hands on when it leaves is one of the cameras it was shown, unchanged. It
  leaves at the poll that finds the counters summing to \<^verbatim>\<open>image_height\<close>, with 100
  percent, so the monitor returns once such a poll is among its observations; and
  while every poll finds a sum below \<^verbatim>\<open>image_height\<close> it keeps polling. (With
  \<^verbatim>\<open>image_height\<close> zero the percentage is not a number and its conversion to \<^verbatim>\<open>int\<close>
  is undefined: the statement is for \<open>image_height \<noteq> 0\<close>.) The only write of
  \<^verbatim>\<open>print_render_progress\<close> comes after the loop has ended, when it sets the counters
  back to zero.
\<close>

theorem progress_monitor:
  assumes "sum_progress (render_progress c) 0 = Inr (image_height c)" and "image_height c \<noteq> 0"
  shows "(\<exists>r. print_render_progress (pre @ c # post) c0 = Some r)
    \<and> (percent < 100 \<longrightarrow>
         progress_loop (c # post) cur percent lastPercent out =
           Some (Inr (c, 100, if lastPercent = 100 then out else out @ [100])))
    \<and> (\<forall>obs cur' p l o' c' p' o''.
          progress_loop obs cur' p l o' = Some (Inr (c', p', o'')) \<longrightarrow>
          c' \<in> set (cur' # obs) \<and> 100 \<le> p')
    \<and> (\<forall>obs. (\<forall>d \<in> set obs. \<exists>raw. sum_progress (render_progress d) 0 = Inr raw
                                    \<and> 0 \<le> raw \<and> raw < image_height d) \<longrightarrow>
               print_render_progress obs c0 = None)
    \<and> (\<forall>obs c' o'. print_render_progress obs c0 = Some (Inr (c', o')) \<longrightarrow>
          (\<exists>d \<in> set obs. c' = d\<lparr> render_progress := fill 0 (render_progress d) \<rparr>))"
proof (intro conjI allI impI)
  from progress_loop_terminates [OF assms, of pre post c0 0 "- 1" "[]"]
  show "\<exists>r. print_render_progress (pre @ c # post) c0 = Some r"
    by (auto simp: print_render_progress_def split: sum.splits)
next
  assume "percent < 100"
  then show "progress_loop (c # post) cur percent lastPercent out =
           Some (Inr (c, 100, if lastPercent = 100 then out else out @ [100]))"
    using assms by (rule progress_loop_exit)
next
  fix obs cur' p l o' c' p' o''
  assume "progress_loop obs cur' p l o' = Some (Inr (c', p', o''))"
  from progress_loop_observed [OF this]
  show "c' \<in> set (cur' # obs)" "100 \<le> p'" by simp_all
next
  fix obs :: "camera list"
  assume "\<forall>d \<in> set obs. \<exists>raw. sum_progress (render_progress d) 0 = Inr raw
                                    \<and> 0 \<le> raw \<and> raw < image_height d"
  from progress_loop_keeps_polling [OF this, of 0 c0 "- 1" "[]"]
  show "print_render_progress obs c0 = None"
    by (simp add: print_render_progress_def)
next
  fix obs c' o'
  assume "print_render_progress obs c0 = Some (Inr (c', o'))"
  then show "\<exists>d \<in> set obs. c' = d\<lparr> render_progress := fill 0 (render_progress d) \<rparr>"
    by (rule print_render_progress_result)
qed


theorem progress_monitor_witness:
  "sum_progress (render_progress (small_init\<lparr> render_progress := [1, 2] \<rparr>)) 0
     = Inr (image_height (small_init\<lparr> render_progress := [1, 2] \<rparr>))
   \<and> image_height (small_init\<lparr> render_progress := [1, 2] \<rparr>) \<noteq> 0
   \<and> print_render_progress
        [small_init, small_init\<lparr> render_progress := [1, 0] \<rparr>,
         small_init\<lparr> render_progress := [1, 2] \<rparr>] small_init
       = Some (Inr (small_init, [0, 33, 100, 100]))
   \<and> (33::int) < 100
   \<and> progress_loop [small_init\<lparr> render_progress := [1, 2] \<rparr>]
         (small_init\<lparr> render_progress := [1, 0] \<rparr>) 33 33 [0, 33]
       = Some (Inr (small_init\<lparr> render_progress := [1, 2] \<rparr>, 100, [0, 33, 100]))
   \<and> sum_progress (render_progress small_init) 0 = Inr 0
   \<and> (0::int) \<le> 0 \<and> 0 < image_height small_init
   \<and> print_render_progress [small_init] small_init = None"
proof -
  let ?c = "small_init\<lparr> render_progress := [1, 2] \<rparr>"
  have h: "sum_progress (render_progress ?c) 0 = Inr (image_height ?c)" "image_height ?c \<noteq> 0"
    by (simp_all add: camera_eval int_add_def int_ok_def)
  note P = progress_monitor [OF h, where pre = "[small_init, small_init\<lparr> render_progress := [1, 0] \<rparr>]"
      and post = "[]" and ?c0.0 = small_init and percent = 33
      and cur = "small_init\<lparr> render_progress := [1, 0] \<rparr>" and lastPercent = 33 and out = "[0, 33]"]
  have run: "print_render_progress
        [small_init, small_init\<lparr> render_progress := [1, 0] \<rparr>, ?c] small_init
       = Some (Inr (small_init, [0, 33, 100, 100]))"
    by (simp add: camera_eval monitor_eval eval_nat_numeral)
  have zero: "sum_progress (render_progress small_init) 0 = Inr 0" "0 < image_height small_init"
    by (simp_all add: camera_eval int_add_def int_ok_def eval_nat_numeral)
  from P [THEN conjunct2, THEN conjunct1]
  have step: "progress_loop [?c] (small_init\<lparr> render_progress := [1, 0] \<rparr>) 33 33 [0, 33]
       = Some (Inr (?c, 100, [0, 33, 100]))"
    by simp
  from P [THEN conjunct2, THEN conjunct2, THEN conjunct2, THEN conjunct1, rule_format,
      of "[small_init]"] zero
  have stay: "print_render_progress [small_init] small_init = None"
    by simp
  from h run step zero stay show ?thesis by simp
qed

section \<open>The file size field of the bitmap\<close>

lemma uint_byte: "uint (word_of_int k :: byte) = k mod 256"
  by (simp add: uint_word_of_int)

lemma base_split4:
  fixes n b :: int
  assumes b: "0 \<le> b"
  shows "n mod (b * (b * (b * b))) =
           n mod b + b * (n div b mod b) + b * b * (n div (b * b) mod b)
             + b * b * b * (n div (b * b * b) mod b)"
proof -
  have bb: "0 \<le> b * b" "0 \<le> b * (b * b)" using b by simp_all
  have d2: "n div b div b = n div (b * b)"
    by (rule zdiv_zmult2_eq [symmetric]) (rule b)
  have d3: "n div (b * b) div b = n div (b * b * b)"
    by (rule zdiv_zmult2_eq [symmetric]) (rule b)
  have s1: "n mod (b * (b * (b * b))) = b * (n div b mod (b * (b * b))) + n mod b"
    by (rule zmod_zmult2_eq) (rule bb(2))
  have s2: "n div b mod (b * (b * b)) = b * (n div b div b mod (b * b)) + n div b mod b"
    by (rule zmod_zmult2_eq) (rule bb(1))
  have s3: "n div (b * b) mod (b * b) = b * (n div (b * b) div b mod b) + n div (b * b) mod b"
    by (rule zmod_zmult2_eq) (rule b)
  show ?thesis
    unfolding s1 s2 d2 s3 d3 by (simp only: algebra_simps)
qed

lemma le32_le_bytes: "le32 (le_bytes n) = n mod 2 ^ 32"
proof -
  have "le32 (le_bytes n) =
          n mod 256 + 256 * (n div 256 mod 256) + 256 * 256 * (n div (256 * 256) mod 256)
            + 256 * 256 * 256 * (n div (256 * 256 * 256) mod 256)"
    by (simp add: le32_def le_bytes_def uint_byte)
  also have "\<dots> = n mod (256 * (256 * (256 * 256)))"
    by (rule base_split4 [symmetric]) simp
  also have "(256 * (256 * (256 * 256)) :: int) = 2 ^ 32" by simp
  finally show ?thesis .
qed

lemma for_loop_invariant_indexed:
  assumes "for_loop lo hi body s = Inr s'"
    and "lo \<le> hi"
    and "I lo s"
    and "\<And>k t t'. lo \<le> k \<Longrightarrow> k < hi \<Longrightarrow> I k t \<Longrightarrow> body k t = Inr t' \<Longrightarrow> I (k + 1) t'"
  shows "I hi s'"
  using assms
proof (induction lo hi body s rule: for_loop.induct)
  case (1 lo hi body s)
  show ?case
  proof (cases "lo < hi")
    case False
    with "1.prems"(2) have "lo = hi" by simp
    with "1.prems"(1,3) show ?thesis by (simp add: for_loop.simps [of hi hi])
  next
    case True
    show ?thesis
    proof (cases "body lo s")
      case (Inl e)
      with True "1.prems"(1) show ?thesis by (simp add: for_loop.simps [of lo hi])
    next
      case (Inr t)
      with True "1.prems"(1) have run: "for_loop (lo + 1) hi body t = Inr s'"
        by (simp add: for_loop.simps [of lo hi])
      have It: "I (lo + 1) t" using "1.prems"(4) [OF _ True "1.prems"(3) Inr] by simp
      from True have le: "lo + 1 \<le> hi" by simp
      show ?thesis
      proof (rule "1.IH" [OF True Inr run le It])
        fix k t1 t1'
        assume "lo + 1 \<le> k" "k < hi" "I k t1" "body k t1 = Inr t1'"
        then show "I (k + 1) t1'" using "1.prems"(4) [of k t1 t1'] by simp
      qed
    qed
  qed
qed

lemma c_mod_nonneg: "0 \<le> a \<Longrightarrow> 0 < b \<Longrightarrow> c_mod a b = a mod b"
  by (simp add: c_mod_def c_div_nonneg minus_mult_div_eq_mod)

lemma row_padding_nonneg:
  assumes "0 \<le> image_width c"
  shows "row_padding c = (4 - image_width c * 3 mod 4) mod 4"
    and "0 \<le> row_padding c" and "row_padding c \<le> 3"
proof -
  have m: "0 \<le> image_width c * 3 mod 4" "image_width c * 3 mod 4 < 4" by simp_all
  from assms have "c_mod (image_width c * 3) 4 = image_width c * 3 mod 4"
    by (intro c_mod_nonneg) simp_all
  moreover from m have "c_mod (4 - image_width c * 3 mod 4) 4 = (4 - image_width c * 3 mod 4) mod 4"
    by (intro c_mod_nonneg) simp_all
  ultimately show eq: "row_padding c = (4 - image_width c * 3 mod 4) mod 4"
    by (simp add: row_padding_def)
  have "0 \<le> (4 - image_width c * 3 mod 4) mod 4" "(4 - image_width c * 3 mod 4) mod 4 < 4"
    by simp_all
  then show "0 \<le> row_padding c" "row_padding c \<le> 3" unfolding eq by simp_all
qed


lemma write_row_appends:
  assumes "write_row c bitmap_data k t = Inr t'"
  shows "0 \<le> image_width c" and "take (length t) t' = t"
    and "int (length t') = int (length t) + 3 * image_width c + row_padding c"
proof -
  let ?off = "image_width c * (image_height c - k - 1) * 3"
  from assms have w: "0 \<le> image_width c" and off: "0 \<le> ?off"
    and fit: "?off + 3 * image_width c \<le> int (length bitmap_data)"
    and t': "t' = t @ take (nat (3 * image_width c)) (drop (nat ?off) bitmap_data)
                    @ replicate (nat (row_padding c)) 0"
    by (auto simp: write_row_def Let_def split: if_splits)
  show "0 \<le> image_width c" by (rule w)
  show "take (length t) t' = t" by (simp add: t')
  have "length (take (nat (3 * image_width c)) (drop (nat ?off) bitmap_data)) = nat (3 * image_width c)"
    using w off fit by (simp add: min_def) linarith
  moreover have "0 \<le> row_padding c" using w by (rule row_padding_nonneg(2))
  ultimately show "int (length t') = int (length t) + 3 * image_width c + row_padding c"
    using w by (simp add: t')
qed

lemma length_bmp_headers: "length (bmp_headers c) = 54"
  by (simp add: bmp_headers_def le_bytes_def)

lemma write_image_run:
  assumes "write_image gamma_correction c = Inr file"
  shows "int_ok (54 + 3 * image_width c * image_height c)"
    and "\<exists>bitmap_data. get_bitmap_data gamma_correction c = Inr bitmap_data \<and>
           for_loop 0 (image_height c) (write_row c bitmap_data) (bmp_headers c) = Inr file"
  using assms
  by (auto simp: write_image_def int_mul_def int_add_def bmp_headers_def Let_def
      split: sum.splits if_splits)

lemma write_image_file:
  assumes "write_image gamma_correction c = Inr file"
  shows "take 54 file = bmp_headers c"
    and "0 \<le> image_height c \<Longrightarrow>
           int (length file) = 54 + image_height c * (3 * image_width c + row_padding c)"
    and "1 \<le> image_height c \<Longrightarrow> 0 \<le> image_width c"
proof -
  from write_image_run(2) [OF assms] obtain bitmap_data where
    run: "for_loop 0 (image_height c) (write_row c bitmap_data) (bmp_headers c) = Inr file"
    by blast
  show "take 54 file = bmp_headers c"
  proof (rule for_loop_invariant [OF run, where I = "\<lambda>t. take 54 t = bmp_headers c"])
    show "take 54 (bmp_headers c) = bmp_headers c" by (simp add: length_bmp_headers)
  next
    fix k t t'
    assume "take 54 t = bmp_headers c" and step: "write_row c bitmap_data k t = Inr t'"
    then have "54 \<le> length t"
      using length_bmp_headers [of c] by (metis length_take min.cobounded1)
    moreover from write_row_appends(2) [OF step] obtain r where "t' = t @ r"
      by (metis append_take_drop_id)
    ultimately show "take 54 t' = bmp_headers c"
      using \<open>take 54 t = bmp_headers c\<close> by simp
  qed
  show "int (length file) = 54 + image_height c * (3 * image_width c + row_padding c)"
    if "0 \<le> image_height c"
  proof (rule for_loop_invariant_indexed [OF run that,
        where I = "\<lambda>k t. int (length t) = 54 + k * (3 * image_width c + row_padding c)"])
    show "int (length (bmp_headers c)) = 54 + 0 * (3 * image_width c + row_padding c)"
      by (simp add: length_bmp_headers)
  next
    fix k t t'
    assume "int (length t) = 54 + k * (3 * image_width c + row_padding c)"
      and "write_row c bitmap_data k t = Inr t'"
    with write_row_appends(3) [of c bitmap_data k t t']
    show "int (length t') = 54 + (k + 1) * (3 * image_width c + row_padding c)"
      by (simp add: algebra_simps)
  qed
  show "0 \<le> image_width c" if "1 \<le> image_height c"
  proof -
    from that have "0 < image_height c" by simp
    with run obtain t where "write_row c bitmap_data 0 (bmp_headers c) = Inr t"
      by (auto simp: for_loop.simps [of 0 "image_height c"] split: sum.splits)
    then show ?thesis by (rule write_row_appends(1))
  qed
qed


lemma size_field_of_headers:
  "take 4 (drop 2 (bmp_headers c)) = le_bytes (54 + 3 * image_width c * image_height c)"
  by (simp add: bmp_headers_def le_bytes_def)

text \<open>
  Claim C9. In every file that \<^verbatim>\<open>write_image\<close> writes, the four bytes at offset 2 of
  the header are the little-endian bytes of \<open>54 + 3 * image_width * image_height\<close>:
  decoded as an unsigned field they give that number modulo \<open>2 ^ 32\<close>, and exactly
  that number whenever \<open>image_height \<ge> 0\<close>. The padding is not counted: the file
  itself is \<open>image_height * row_padding\<close> bytes longer than the field says. (A call in
  which the \<^verbatim>\<open>int\<close> computation of the size overflows has no defined result.)
\<close>

theorem write_image_file_size_field:
  assumes "write_image gamma_correction c = Inr file"
  shows "take 4 (drop 2 file) = le_bytes (54 + 3 * image_width c * image_height c)
    \<and> le32 (take 4 (drop 2 file)) = (54 + 3 * image_width c * image_height c) mod 2 ^ 32
    \<and> (0 \<le> image_height c \<longrightarrow>
          le32 (take 4 (drop 2 file)) = 54 + 3 * image_width c * image_height c
          \<and> int (length file) =
              54 + 3 * image_width c * image_height c + image_height c * row_padding c)"
proof -
  let ?size = "54 + 3 * image_width c * image_height c"
  have "take 4 (drop 2 file) = take 4 (drop 2 (take 54 file))"
    by (simp add: drop_take)
  then have field: "take 4 (drop 2 file) = le_bytes ?size"
    by (simp only: write_image_file(1) [OF assms] size_field_of_headers)
  then have decoded: "le32 (take 4 (drop 2 file)) = ?size mod 2 ^ 32"
    by (simp only: le32_le_bytes)
  have "le32 (take 4 (drop 2 file)) = ?size \<and>
        int (length file) = ?size + image_height c * row_padding c" if h: "0 \<le> image_height c"
  proof -
    have "0 \<le> image_width c * image_height c"
    proof (cases "image_height c = 0")
      case True
      then show ?thesis by simp
    next
      case False
      with h have "1 \<le> image_height c" by simp
      from write_image_file(3) [OF assms this] h show ?thesis by simp
    qed
    then have lo: "0 \<le> ?size" by simp
    from write_image_run(1) [OF assms] have "?size < 2 ^ 31" by (simp add: int_ok_def)
    then have hi: "?size < 2 ^ 32" by simp
    from lo hi have "?size mod 2 ^ 32 = ?size" by (rule mod_pos_pos_trivial)
    with decoded have "le32 (take 4 (drop 2 file)) = ?size" by (simp only:)
    moreover from write_image_file(2) [OF assms h]
    have "int (length file) = ?size + image_height c * row_padding c"
      by (simp add: algebra_simps)
    ultimately show ?thesis by (rule conjI)
  qed
  with field decoded show ?thesis by blast
qed

lemma write_image_small_init:
  "write_image (\<lambda>pixel samples. pixel) small_init = Inr (bmp_headers small_init @ replicate 24 0)"
  by (simp add: write_image_def get_bitmap_data_def to_uchar_def trunc_def int_mul_def int_add_def
      int_ok_def bmp_headers_def write_row_def row_padding_def c_mod_def c_div_def Let_def
      for_loop_step for_loop_done camera_eval eval_nat_numeral)

theorem write_image_file_size_field_witness:
  "write_image (\<lambda>pixel samples. pixel) small_init = Inr (bmp_headers small_init @ replicate 24 0)
   \<and> take 4 (drop 2 (bmp_headers small_init @ replicate 24 0)) = [72, 0, 0, 0]
   \<and> le32 [72, 0, 0, 0] = 54 + 3 * image_width small_init * image_height small_init
   \<and> 0 \<le> image_height small_init
   \<and> row_padding small_init = 2
   \<and> length (bmp_headers small_init @ replicate 24 0) = 78"
proof -
  note T = write_image_file_size_field [OF write_image_small_init]
  have h: "0 \<le> image_height small_init" by (simp add: camera_eval)
  have bytes: "le_bytes (54 + 3 * image_width small_init * image_height small_init) = [72, 0, 0, 0]"
    by (simp add: le_bytes_def camera_eval)
  have pad: "row_padding small_init = 2"
    by (simp add: row_padding_def c_mod_def c_div_def camera_eval)
  from T [THEN conjunct1] bytes
  have a: "take 4 (drop 2 (bmp_headers small_init @ replicate 24 0)) = [72, 0, 0, 0]"
    by (simp only:)
  from T [THEN conjunct2, THEN conjunct2, rule_format, OF h] a
  have b: "le32 [72, 0, 0, 0] = 54 + 3 * image_width small_init * image_height small_init"
    by (simp only:)
  have c: "length (bmp_headers small_init @ replicate 24 0) = 78"
    by (simp add: length_bmp_headers)
  from write_image_small_init a b h pad c show ?thesis by (intro conjI)
qed

section \<open>The framebuffer after a render\<close>

subsection \<open>What a worker adds\<close>

lemma add_samples_snoc:
  "add_samples (xs @ [y]) col =
     (case add_samples xs col of None \<Rightarrow> None
      | Some v \<Rightarrow> (case y of None \<Rightarrow> None | Some x \<Rightarrow> Some (vadd v x)))"
  by (induction xs col rule: add_samples.induct) (simp_all split: option.splits)

lemma pixel_sum_none: "n \<le> 0 \<Longrightarrow> pixel_sum world rnd c j i n col = Some col"
  by (simp add: pixel_sum_def)

lemma pixel_sum_step:
  assumes "0 \<le> k" "pixel_sum world rnd c j i k col = Some v"
    "sample_color world rnd c j i k = Some x"
  shows "pixel_sum world rnd c j i (k + 1) col = Some (vadd v x)"
proof -
  from assms(1) have "[0..k] = [0..k - 1] @ [k]" by (simp add: upto_rec2)
  with assms(2,3) show ?thesis by (simp add: pixel_sum_def add_samples_snoc)
qed

lemma get_ray_buffers:
  "get_ray (c\<lparr> image_buf := im, render_progress := pr \<rparr>) = get_ray c"
  by (intro ext)
    (simp add: get_ray_def pixel_sample_square_def defocus_disk_sample_def Let_def
      split: prod.splits option.splits)

lemma sample_color_buffers:
  "sample_color world rnd (c\<lparr> image_buf := im, render_progress := pr \<rparr>) = sample_color world rnd c"
  by (intro ext) (simp add: sample_color_def get_ray_buffers split: option.splits)

lemma sample_color_same_config:
  assumes "same_config t s"
  shows "sample_color world rnd t = sample_color world rnd s"
proof -
  from assms have "t\<lparr> image_buf := image_buf s, render_progress := render_progress s \<rparr> = s"
    by (simp add: same_config_def)
  from arg_cong [OF this, of "sample_color world rnd"] show ?thesis
    by (simp only: sample_color_buffers)
qed

lemma pixel_sum_same_config:
  "same_config t s \<Longrightarrow> pixel_sum world rnd t = pixel_sum world rnd s"
  by (intro ext) (simp add: pixel_sum_def sample_color_same_config)

lemma render_sample_result:
  assumes "render_sample world rnd j i k t = Inr t'"
  shows "0 \<le> j * image_width t + i \<and> j * image_width t + i < int (length (image_buf t))
       \<and> (\<exists>col. sample_color world rnd t j i k = Some col
              \<and> image_buf t' ! nat (j * image_width t + i)
                  = vadd (image_buf t ! nat (j * image_width t + i)) col)"
  using assms
  by (auto simp: render_sample_def sample_color_def Let_def
      split: option.splits prod.splits if_splits)


lemma sample_loop_result:
  assumes run: "for_loop 0 n (\<lambda>sample cs. render_sample world rnd j i sample cs) t = Inr t'"
  shows "same_config t' t \<and> render_progress t' = render_progress t
       \<and> length (image_buf t') = length (image_buf t)
       \<and> (\<forall>p. int p \<noteq> j * image_width t + i \<longrightarrow> image_buf t' ! p = image_buf t ! p)
       \<and> pixel_sum world rnd t j i n (image_buf t ! nat (j * image_width t + i))
           = Some (image_buf t' ! nat (j * image_width t + i))"
proof (cases "0 \<le> n")
  case False
  then have "t' = t" using run by (simp add: for_loop_done)
  with False show ?thesis by (simp add: same_config_refl pixel_sum_none)
next
  case True
  let ?idx = "j * image_width t + i"
  let ?I = "\<lambda>k u. same_config u t \<and> render_progress u = render_progress t
       \<and> length (image_buf u) = length (image_buf t)
       \<and> (\<forall>p. int p \<noteq> ?idx \<longrightarrow> image_buf u ! p = image_buf t ! p)
       \<and> pixel_sum world rnd t j i k (image_buf t ! nat ?idx) = Some (image_buf u ! nat ?idx)"
  have "?I n t'"
  proof (rule for_loop_invariant_indexed [OF run True, where I = ?I])
    show "?I 0 t" by (simp add: same_config_refl pixel_sum_none)
  next
    fix k u u'
    assume k: "0 \<le> k" "k < n" and I: "?I k u"
      and step: "render_sample world rnd j i k u = Inr u'"
    from I have cfg: "same_config u t" by simp
    then have w: "image_width u = image_width t" by (simp add: same_configD)
    from render_sample_frame [OF step]
    have f: "same_config u' u" "render_progress u' = render_progress u"
      "length (image_buf u') = length (image_buf u)"
      "\<And>p. int p \<noteq> ?idx \<Longrightarrow> image_buf u' ! p = image_buf u ! p"
      by (simp_all add: w)
    from render_sample_result [OF step] obtain col where
      col: "sample_color world rnd u j i k = Some col"
        "image_buf u' ! nat ?idx = vadd (image_buf u ! nat ?idx) col"
      by (auto simp: w)
    from col(1) have "sample_color world rnd t j i k = Some col"
      by (simp add: sample_color_same_config [OF cfg])
    from pixel_sum_step [OF k(1) _ this] I
    have "pixel_sum world rnd t j i (k + 1) (image_buf t ! nat ?idx)
            = Some (vadd (image_buf u ! nat ?idx) col)"
      by simp
    with f I col(2) same_config_trans [OF f(1) cfg] show "?I (k + 1) u'" by simp
  qed
  then show ?thesis by simp
qed

lemma row_loop_result:
  assumes run: "for_loop 0 (image_width t)
                  (\<lambda>i ci. for_loop 0 (samples_per_pixel ci)
                             (\<lambda>sample cs. render_sample world rnd j i sample cs) ci) t = Inr t'"
    and j: "0 \<le> j"
  shows "same_config t' t \<and> render_progress t' = render_progress t
       \<and> length (image_buf t') = length (image_buf t)
       \<and> (\<forall>p. (\<forall>i. 0 \<le> i \<and> i < image_width t \<longrightarrow> int p \<noteq> j * image_width t + i)
              \<longrightarrow> image_buf t' ! p = image_buf t ! p)
       \<and> (\<forall>i. 0 \<le> i \<and> i < image_width t \<longrightarrow>
              pixel_sum world rnd t j i (samples_per_pixel t)
                  (image_buf t ! nat (j * image_width t + i))
                = Some (image_buf t' ! nat (j * image_width t + i)))"
proof (cases "0 \<le> image_width t")
  case False
  then have "t' = t" using run by (simp add: for_loop_done)
  with False show ?thesis by (auto simp: same_config_refl)
next
  case True
  let ?W = "image_width t"
  let ?S = "samples_per_pixel t"
  let ?I = "\<lambda>m u. same_config u t \<and> render_progress u = render_progress t
       \<and> length (image_buf u) = length (image_buf t)
       \<and> (\<forall>p. (\<forall>i. 0 \<le> i \<and> i < m \<longrightarrow> int p \<noteq> j * ?W + i)
              \<longrightarrow> image_buf u ! p = image_buf t ! p)
       \<and> (\<forall>i. 0 \<le> i \<and> i < m \<longrightarrow>
              pixel_sum world rnd t j i ?S (image_buf t ! nat (j * ?W + i))
                = Some (image_buf u ! nat (j * ?W + i)))"
  have "?I ?W t'"
  proof (rule for_loop_invariant_indexed [OF run True, where I = ?I])
    show "?I 0 t" by (auto simp: same_config_refl)
  next
    fix m u u'
    assume m: "0 \<le> m" "m < ?W" and I: "?I m u"
      and step: "for_loop 0 (samples_per_pixel u)
                   (\<lambda>sample cs. render_sample world rnd j m sample cs) u = Inr u'"
    from I have cfg: "same_config u t" by simp
    then have w: "image_width u = ?W" and sp: "samples_per_pixel u = ?S"
      by (simp_all add: same_configD)
    from I have keep: "\<And>p. (\<forall>i. 0 \<le> i \<and> i < m \<longrightarrow> int p \<noteq> j * ?W + i)
              \<Longrightarrow> image_buf u ! p = image_buf t ! p"
      and sums: "\<And>i. 0 \<le> i \<Longrightarrow> i < m \<Longrightarrow>
              pixel_sum world rnd t j i ?S (image_buf t ! nat (j * ?W + i))
                = Some (image_buf u ! nat (j * ?W + i))"
      by simp_all
    from sample_loop_result [OF step]
    have f: "same_config u' u" "render_progress u' = render_progress u"
      "length (image_buf u') = length (image_buf u)"
      "\<And>p. int p \<noteq> j * ?W + m \<Longrightarrow> image_buf u' ! p = image_buf u ! p"
      "pixel_sum world rnd u j m ?S (image_buf u ! nat (j * ?W + m))
           = Some (image_buf u' ! nat (j * ?W + m))"
      by (simp_all add: w sp)
    have jw: "0 \<le> j * ?W" using j True by simp
    have pos: "int (nat (j * ?W + i)) = j * ?W + i" if "0 \<le> i" for i
      using jw that by simp
    have A: "image_buf u' ! p = image_buf t ! p"
      if "\<forall>i. 0 \<le> i \<and> i < m + 1 \<longrightarrow> int p \<noteq> j * ?W + i" for p
    proof -
      from that m have "int p \<noteq> j * ?W + m" by simp
      then have "image_buf u' ! p = image_buf u ! p" by (rule f(4))
      moreover from that have "\<forall>i. 0 \<le> i \<and> i < m \<longrightarrow> int p \<noteq> j * ?W + i" by simp
      then have "image_buf u ! p = image_buf t ! p" by (rule keep)
      ultimately show ?thesis by simp
    qed
    have B: "pixel_sum world rnd t j i ?S (image_buf t ! nat (j * ?W + i))
                = Some (image_buf u' ! nat (j * ?W + i))"
      if "0 \<le> i" "i < m + 1" for i
    proof (cases "i = m")
      case True
      have "\<forall>i'. 0 \<le> i' \<and> i' < m \<longrightarrow> int (nat (j * ?W + m)) \<noteq> j * ?W + i'"
        using pos [OF m(1)] by simp
      then have "image_buf u ! nat (j * ?W + m) = image_buf t ! nat (j * ?W + m)" by (rule keep)
      with f(5) True show ?thesis by (simp add: pixel_sum_same_config [OF cfg])
    next
      case False
      with that have im: "i < m" by simp
      have "int (nat (j * ?W + i)) \<noteq> j * ?W + m" using pos [OF that(1)] False by simp
      then have "image_buf u' ! nat (j * ?W + i) = image_buf u ! nat (j * ?W + i)" by (rule f(4))
      with sums [OF that(1) im] show ?thesis by simp
    qed
    from f(1-3) I A B same_config_trans [OF f(1) cfg] show "?I (m + 1) u'" by simp
  qed
  then show ?thesis by simp
qed

lemma render_thread_pixels:
  assumes run: "render_thread world rnd threadId minRow maxRow s = Inr s'"
    and lo: "0 \<le> minRow"
  shows "same_config s' s \<and> length (image_buf s') = length (image_buf s)
       \<and> (\<forall>j i. minRow \<le> j \<and> j < maxRow \<and> 0 \<le> i \<and> i < image_width s \<longrightarrow>
              pixel_sum world rnd s j i (samples_per_pixel s)
                  (image_buf s ! nat (j * image_width s + i))
                = Some (image_buf s' ! nat (j * image_width s + i)))"
proof (cases "minRow \<le> maxRow")
  case False
  then have "s' = s" using run by (simp add: render_thread_def for_loop_done)
  with False show ?thesis by (auto simp: same_config_refl)
next
  case True
  let ?W = "image_width s"
  let ?S = "samples_per_pixel s"
  let ?I = "\<lambda>r u. same_config u s \<and> length (image_buf u) = length (image_buf s)
       \<and> (\<forall>p. (\<forall>j i. minRow \<le> j \<and> j < r \<and> 0 \<le> i \<and> i < ?W \<longrightarrow> int p \<noteq> j * ?W + i)
              \<longrightarrow> image_buf u ! p = image_buf s ! p)
       \<and> (\<forall>j i. minRow \<le> j \<and> j < r \<and> 0 \<le> i \<and> i < ?W \<longrightarrow>
              pixel_sum world rnd s j i ?S (image_buf s ! nat (j * ?W + i))
                = Some (image_buf u ! nat (j * ?W + i)))"
  have "?I maxRow s'"
  proof (rule for_loop_invariant_indexed [OF run [unfolded render_thread_def] True, where I = ?I])
    show "?I minRow s" by (auto simp: same_config_refl)
  next
    fix r u u'
    assume r: "minRow \<le> r" "r < maxRow" and I: "?I r u"
      and body: "(case for_loop 0 (image_width u)
                 (\<lambda>i ci. for_loop 0 (samples_per_pixel ci)
                            (\<lambda>sample cs. render_sample world rnd r i sample cs) ci) u of
            Inl e \<Rightarrow> Inl e
          | Inr c' \<Rightarrow> bump_progress threadId c') = Inr u'"
    from body obtain u1 where u1: "for_loop 0 (image_width u)
                 (\<lambda>i ci. for_loop 0 (samples_per_pixel ci)
                            (\<lambda>sample cs. render_sample world rnd r i sample cs) ci) u = Inr u1"
      and b: "bump_progress threadId u1 = Inr u'"
      by (auto split: sum.splits)
    from I have cfg: "same_config u s" by simp
    then have w: "image_width u = ?W" and sp: "samples_per_pixel u = ?S"
      by (simp_all add: same_configD)
    from I have keep: "\<And>p. (\<forall>j i. minRow \<le> j \<and> j < r \<and> 0 \<le> i \<and> i < ?W \<longrightarrow> int p \<noteq> j * ?W + i)
              \<Longrightarrow> image_buf u ! p = image_buf s ! p"
      and sums: "\<And>j i. minRow \<le> j \<Longrightarrow> j < r \<Longrightarrow> 0 \<le> i \<Longrightarrow> i < ?W \<Longrightarrow>
              pixel_sum world rnd s j i ?S (image_buf s ! nat (j * ?W + i))
                = Some (image_buf u ! nat (j * ?W + i))"
      by simp_all
    from r lo have r0: "0 \<le> r" by simp
    from row_loop_result [OF u1 r0]
    have f: "same_config u1 u" "length (image_buf u1) = length (image_buf u)"
      "\<And>p. (\<forall>i. 0 \<le> i \<and> i < ?W \<longrightarrow> int p \<noteq> r * ?W + i)
              \<Longrightarrow> image_buf u1 ! p = image_buf u ! p"
      "\<And>i. 0 \<le> i \<Longrightarrow> i < ?W \<Longrightarrow>
              pixel_sum world rnd u r i ?S (image_buf u ! nat (r * ?W + i))
                = Some (image_buf u1 ! nat (r * ?W + i))"
      by (simp_all add: w sp)
    from bump_progress_frame [OF b]
    have g: "same_config u' u1" "image_buf u' = image_buf u1" by simp_all
    have pos: "int (nat (j * ?W + i)) = j * ?W + i" if "0 \<le> j" "0 \<le> i" "i < ?W" for j i
    proof -
      from that have "0 \<le> j * ?W" by simp
      with that show ?thesis by simp
    qed
    have A: "image_buf u' ! p = image_buf s ! p"
      if "\<forall>j i. minRow \<le> j \<and> j < r + 1 \<and> 0 \<le> i \<and> i < ?W \<longrightarrow> int p \<noteq> j * ?W + i" for p
    proof -
      from that r have "\<forall>i. 0 \<le> i \<and> i < ?W \<longrightarrow> int p \<noteq> r * ?W + i" by simp
      then have "image_buf u1 ! p = image_buf u ! p" by (rule f(3))
      moreover from that
      have "\<forall>j i. minRow \<le> j \<and> j < r \<and> 0 \<le> i \<and> i < ?W \<longrightarrow> int p \<noteq> j * ?W + i" by simp
      then have "image_buf u ! p = image_buf s ! p" by (rule keep)
      ultimately show ?thesis using g(2) by simp
    qed
    have B: "pixel_sum world rnd s j i ?S (image_buf s ! nat (j * ?W + i))
                = Some (image_buf u' ! nat (j * ?W + i))"
      if "minRow \<le> j" "j < r + 1" "0 \<le> i" "i < ?W" for j i
    proof (cases "j = r")
      case True
      have "\<forall>j' i'. minRow \<le> j' \<and> j' < r \<and> 0 \<le> i' \<and> i' < ?W
               \<longrightarrow> int (nat (r * ?W + i)) \<noteq> j' * ?W + i'"
      proof (intro allI impI notI)
        fix j' i'
        assume a: "minRow \<le> j' \<and> j' < r \<and> 0 \<le> i' \<and> i' < ?W"
          and e: "int (nat (r * ?W + i)) = j' * ?W + i'"
        from e pos [OF r0 that(3,4)] have "r * ?W + i = j' * ?W + i'" by simp
        from slot_unique [OF this that(3,4)] a show False by simp
      qed
      then have "image_buf u ! nat (r * ?W + i) = image_buf s ! nat (r * ?W + i)" by (rule keep)
      with f(4) [OF that(3,4)] True g(2) show ?thesis
        by (simp add: pixel_sum_same_config [OF cfg])
    next
      case False
      with that have jr: "j < r" by simp
      from that lo have j0: "0 \<le> j" by simp
      have "\<forall>i'. 0 \<le> i' \<and> i' < ?W \<longrightarrow> int (nat (j * ?W + i)) \<noteq> r * ?W + i'"
      proof (intro allI impI notI)
        fix i'
        assume a: "0 \<le> i' \<and> i' < ?W" and e: "int (nat (j * ?W + i)) = r * ?W + i'"
        from e pos [OF j0 that(3,4)] have "j * ?W + i = r * ?W + i'" by simp
        from slot_unique [OF this that(3,4)] a False show False by simp
      qed
      then have "image_buf u1 ! nat (j * ?W + i) = image_buf u ! nat (j * ?W + i)" by (rule f(3))
      with sums [OF that(1) jr that(3,4)] g(2) show ?thesis by simp
    qed
    from f(2) g I A B same_config_trans [OF g(1) same_config_trans [OF f(1) cfg]]
    show "?I (r + 1) u'" by simp
  qed
  then show ?thesis by simp
qed


lemma render_thread_other_rows:
  assumes run: "render_thread world rnd threadId minRow maxRow s = Inr s'"
    and "0 \<le> j" "\<not> (minRow \<le> j \<and> j < maxRow)" "0 \<le> i" "i < image_width s"
  shows "image_buf s' ! nat (j * image_width s + i) = image_buf s ! nat (j * image_width s + i)"
proof -
  from assms(2,4,5) have "0 \<le> j * image_width s" by simp
  with assms(4) have pos: "int (nat (j * image_width s + i)) = j * image_width s + i" by simp
  have "j * image_width s + i \<notin> worker_slots s (threadId, minRow, maxRow)"
  proof
    assume "j * image_width s + i \<in> worker_slots s (threadId, minRow, maxRow)"
    then obtain j' i' where *: "j' \<in> worker_rows (threadId, minRow, maxRow)" "0 \<le> i'"
      "i' < image_width s" "j * image_width s + i = j' * image_width s + i'"
      unfolding worker_slots_iff by blast
    from slot_unique [OF *(4) assms(4,5) *(2,3)] have "j = j'" by simp
    with *(1) assms(3) show False by (simp add: worker_rows_def)
  qed
  with render_thread_frame [OF run] pos show ?thesis by (simp add: frame_inv_def)
qed

lemma run_workers_pixels:
  assumes "run_workers world rnd ws s = Inr s'"
    and "\<forall>a \<in> set ws. 0 \<le> fst (snd a)"
    and "sorted_wrt (\<lambda>a b. worker_rows a \<inter> worker_rows b = {}) ws"
    and "0 \<le> j" "0 \<le> i" "i < image_width s"
  shows "same_config s' s \<and> length (image_buf s') = length (image_buf s) \<and>
     (if \<exists>a \<in> set ws. j \<in> worker_rows a
      then pixel_sum world rnd s j i (samples_per_pixel s)
               (image_buf s ! nat (j * image_width s + i))
             = Some (image_buf s' ! nat (j * image_width s + i))
      else image_buf s' ! nat (j * image_width s + i)
             = image_buf s ! nat (j * image_width s + i))"
  using assms
proof (induction ws arbitrary: s)
  case Nil
  then show ?case by (simp add: same_config_refl)
next
  case (Cons a ws)
  obtain tid lo hi where a: "a = (tid, lo, hi)" by (cases a)
  from Cons.prems(1) a obtain s1 where t: "render_thread world rnd tid lo hi s = Inr s1"
    and rest: "run_workers world rnd ws s1 = Inr s'"
    by (auto split: sum.splits)
  from Cons.prems(2) a have lo0: "0 \<le> lo" by simp
  from render_thread_pixels [OF t lo0]
  have cfg1: "same_config s1 s" and len1: "length (image_buf s1) = length (image_buf s)"
    and sums1: "\<And>j i. lo \<le> j \<Longrightarrow> j < hi \<Longrightarrow> 0 \<le> i \<Longrightarrow> i < image_width s \<Longrightarrow>
              pixel_sum world rnd s j i (samples_per_pixel s)
                  (image_buf s ! nat (j * image_width s + i))
                = Some (image_buf s1 ! nat (j * image_width s + i))"
    by simp_all
  from cfg1 have w1: "image_width s1 = image_width s"
    and sp1: "samples_per_pixel s1 = samples_per_pixel s"
    by (simp_all add: same_configD)
  from Cons.prems(2) have p2: "\<forall>a \<in> set ws. 0 \<le> fst (snd a)" by simp
  from Cons.prems(3) have p3: "sorted_wrt (\<lambda>a b. worker_rows a \<inter> worker_rows b = {}) ws"
    and hd: "\<forall>b \<in> set ws. worker_rows a \<inter> worker_rows b = {}"
    by simp_all
  from Cons.prems(6) have iw: "i < image_width s1" by (simp add: w1)
  note IH0 = Cons.IH [OF rest p2 p3 Cons.prems(4,5) iw]
  from IH0 have cfg2: "same_config s' s1"
    and len2: "length (image_buf s') = length (image_buf s1)"
    by simp_all
  have IH: "if \<exists>a \<in> set ws. j \<in> worker_rows a
      then pixel_sum world rnd s j i (samples_per_pixel s)
               (image_buf s1 ! nat (j * image_width s + i))
             = Some (image_buf s' ! nat (j * image_width s + i))
      else image_buf s' ! nat (j * image_width s + i)
             = image_buf s1 ! nat (j * image_width s + i)"
  proof (cases "\<exists>a \<in> set ws. j \<in> worker_rows a")
    case True
    with IH0 show ?thesis by (simp add: w1 sp1 pixel_sum_same_config [OF cfg1])
  next
    case False
    with IH0 show ?thesis by (simp add: w1)
  qed
  have cfg: "same_config s' s" by (rule same_config_trans [OF cfg2 cfg1])
  show ?case
  proof (cases "j \<in> worker_rows a")
    case True
    with hd have no: "\<not> (\<exists>b \<in> set ws. j \<in> worker_rows b)" by blast
    from True a have "lo \<le> j" "j < hi" by (simp_all add: worker_rows_def)
    from sums1 [OF this Cons.prems(5,6)] IH no True cfg len1 len2 show ?thesis
      by (auto split: if_splits)
  next
    case False
    with a have "\<not> (lo \<le> j \<and> j < hi)" by (simp add: worker_rows_def)
    from render_thread_other_rows [OF t Cons.prems(4) this Cons.prems(5,6)]
    have "image_buf s1 ! nat (j * image_width s + i) = image_buf s ! nat (j * image_width s + i)" .
    with IH False cfg len1 len2 show ?thesis by (auto split: if_splits)
  qed
qed

lemma render_run:
  assumes "render world rnd c = Inr c3"
  shows "\<exists>c1 c2. initialize c = Inr c1 \<and> run_workers world rnd (worker_args c1) c1 = Inr c2
           \<and> c3 = c2\<lparr> render_progress := fill 0 (render_progress c2) \<rparr>"
proof -
  from assms obtain c1 c2 out where i: "initialize c = Inr c1"
    and w: "run_workers world rnd (worker_args c1) c1 = Inr c2"
    and m: "print_render_progress [c2] c2 = Some (Inr (c3, out))"
    by (auto simp: render_def split: sum.splits option.splits)
  from print_render_progress_result [OF m]
  have "c3 = c2\<lparr> render_progress := fill 0 (render_progress c2) \<rparr>" by simp
  with i w show ?thesis by blast
qed

lemma worker_args_sorted:
  assumes "1 \<le> image_height c" "1 \<le> max_threads c"
  shows "sorted_wrt (\<lambda>a b. worker_rows a \<inter> worker_rows b = {}) (worker_args c)"
  unfolding sorted_wrt_iff_nth_less
proof (intro allI impI)
  fix a b
  assume "a < b" "b < length (worker_args c)"
  then show "worker_rows (worker_args c ! a) \<inter> worker_rows (worker_args c ! b) = {}"
    using worker_rows_disjoint [OF assms, of a b] by simp
qed

lemma worker_args_nonneg:
  assumes "1 \<le> image_height c" "1 \<le> max_threads c"
  shows "\<forall>a \<in> set (worker_args c). 0 \<le> fst (snd a)"
proof
  fix a
  assume "a \<in> set (worker_args c)"
  then obtain k where "k < length (worker_args c)" "a = worker_args c ! k"
    by (auto simp: in_set_conv_nth)
  with worker_args_rows(1) [OF assms, of k] show "0 \<le> fst (snd a)" by simp
qed

lemma slot_in_range:
  fixes j i W H :: int
  assumes "0 \<le> j" "j < H" "0 \<le> i" "i < W"
  shows "0 \<le> j * W + i" "j * W + i < H * W"
proof -
  from assms have "0 \<le> j * W" by simp
  with assms show "0 \<le> j * W + i" by simp
  from assms have "(j + 1) * W \<le> H * W" by (intro mult_right_mono) simp_all
  with assms show "j * W + i < H * W" by (simp add: algebra_simps)
qed

lemma render_pixels:
  assumes run: "render world rnd c = Inr c3"
    and H: "1 \<le> image_height c" and T: "1 \<le> max_threads c"
    and p: "0 \<le> j" "j < image_height c" "0 \<le> i" "i < image_width c"
  shows "\<exists>c1. initialize c = Inr c1
           \<and> pixel_sum world rnd c1 j i (samples_per_pixel c) (Vec3 0 0 0)
               = Some (image_buf c3 ! nat (j * image_width c + i))"
proof -
  from render_run [OF run] obtain c1 c2 where i: "initialize c = Inr c1"
    and w: "run_workers world rnd (worker_args c1) c1 = Inr c2"
    and c3: "c3 = c2\<lparr> render_progress := fill 0 (render_progress c2) \<rparr>"
    by blast
  note b = initialize_buffers [OF i]
  from b(3,4) T have args: "worker_args c1 = worker_args c"
    by (intro worker_args_cong) simp_all
  from b(4) H have H1: "1 \<le> image_height c1" by simp
  from b(3) T have T1: "1 \<le> max_threads c1" by simp
  from p(4) b(5) have iw: "i < image_width c1" by simp
  from worker_args_rows(3) [OF H T p(1,2)] args
  have own: "\<exists>a \<in> set (worker_args c1). j \<in> worker_rows a" by (auto intro: nth_mem)
  from run_workers_pixels [OF w worker_args_nonneg [OF H1 T1] worker_args_sorted [OF H1 T1]
      p(1,3) iw] own
  have sum: "pixel_sum world rnd c1 j i (samples_per_pixel c1)
               (image_buf c1 ! nat (j * image_width c1 + i))
             = Some (image_buf c2 ! nat (j * image_width c1 + i))"
    by simp
  from slot_in_range [OF p] have "nat (j * image_width c + i) < nat (image_height c * image_width c)"
    by simp
  then have "image_buf c1 ! nat (j * image_width c + i) = Vec3 0 0 0"
    by (simp add: b(1))
  with sum c3 i show ?thesis by (simp add: b(5,6))
qed


lemma render_thread_no_samples:
  assumes run: "render_thread world rnd threadId minRow maxRow s = Inr s'"
    and S: "samples_per_pixel s \<le> 0"
  shows "image_buf s' = image_buf s"
proof -
  let ?I = "\<lambda>u. same_config u s \<and> image_buf u = image_buf s"
  have "?I s'"
  proof (rule for_loop_invariant [OF run [unfolded render_thread_def], where I = ?I])
    show "?I s" by (simp add: same_config_refl)
  next
    fix j t t'
    assume It: "?I t"
      and body: "(case for_loop 0 (image_width t)
                 (\<lambda>i ci. for_loop 0 (samples_per_pixel ci)
                            (\<lambda>sample cs. render_sample world rnd j i sample cs) ci) t of
            Inl e \<Rightarrow> Inl e
          | Inr c' \<Rightarrow> bump_progress threadId c') = Inr t'"
    from body obtain u where u: "for_loop 0 (image_width t)
                 (\<lambda>i ci. for_loop 0 (samples_per_pixel ci)
                            (\<lambda>sample cs. render_sample world rnd j i sample cs) ci) t = Inr u"
      and b: "bump_progress threadId u = Inr t'"
      by (auto split: sum.splits)
    have Iu: "?I u"
    proof (rule for_loop_invariant [OF u, where I = ?I])
      show "?I t" by (rule It)
    next
      fix i v v'
      assume Iv: "?I v"
        and step: "for_loop 0 (samples_per_pixel v)
                     (\<lambda>sample cs. render_sample world rnd j i sample cs) v = Inr v'"
      from Iv have "samples_per_pixel v = samples_per_pixel s" by (simp add: same_configD)
      with S have "\<not> 0 < samples_per_pixel v" by simp
      with step have "v' = v" by (simp add: for_loop_done)
      with Iv show "?I v'" by simp
    qed
    from bump_progress_frame [OF b] Iu same_config_trans [of t' u s] show "?I t'" by simp
  qed
  then show ?thesis by simp
qed

lemma worker_adds:
  assumes cfg: "same_config s c"
    and run: "render_thread world rnd (fst a) (fst (snd a)) (snd (snd a)) s = Inr s'"
    and lo: "0 \<le> fst (snd a)" and j: "j \<in> worker_rows a"
    and i: "0 \<le> i" "i < image_width c"
  shows "pixel_sum world rnd c j i (samples_per_pixel c)
             (image_buf s ! nat (j * image_width c + i))
           = Some (image_buf s' ! nat (j * image_width c + i))"
proof -
  from j have "fst (snd a) \<le> j" "j < snd (snd a)" by (simp_all add: worker_rows_def)
  with render_thread_pixels [OF run lo] i same_configD(1,2) [OF cfg]
  show ?thesis by (simp add: pixel_sum_same_config [OF cfg])
qed

lemma worker_idle:
  assumes cfg: "same_config s c"
    and run: "render_thread world rnd (fst a) (fst (snd a)) (snd (snd a)) s = Inr s'"
    and S: "samples_per_pixel c \<le> 0"
  shows "image_buf s' = image_buf s"
  using render_thread_no_samples [OF run] S same_configD(2) [OF cfg] by simp

lemma initialize_basis:
  assumes "initialize c = Inr c1"
  shows "center c1 = lookfrom c"
    and "basis_w c1 = unit_vector (vsub (lookfrom c) (lookat c))"
    and "basis_u c1 = unit_vector (cross (vup c) (basis_w c1))"
    and "basis_v c1 = cross (basis_w c1) (basis_u c1)"
  using assms by (auto simp: initialize_def Let_def split: sum.splits)

lemma vsub_self: "vsub p p = Vec3 0 0 0"
  by (simp add: vsub_def)

subsection \<open>A render that returns\<close>

lemma for_loop_total:
  assumes "I s"
    and "\<And>k t. lo \<le> k \<Longrightarrow> k < hi \<Longrightarrow> I t \<Longrightarrow> \<exists>t'. body k t = Inr t' \<and> I t'"
  shows "\<exists>s'. for_loop lo hi body s = Inr s' \<and> I s'"
  using assms
proof (induction lo hi body s rule: for_loop.induct)
  case (1 lo hi body s)
  show ?case
  proof (cases "lo < hi")
    case False
    then show ?thesis using "1.prems"(1) by (simp add: for_loop_done)
  next
    case True
    from "1.prems"(2) [OF _ True "1.prems"(1)] obtain t where t: "body lo s = Inr t" "I t"
      by auto
    have "\<exists>s'. for_loop (lo + 1) hi body t = Inr s' \<and> I s'"
    proof (rule "1.IH" [OF True t(1) t(2)])
      fix k u
      assume "lo + 1 \<le> k" "k < hi" "I u"
      then show "\<exists>t'. body k u = Inr t' \<and> I t'" using "1.prems"(2) [of k u] by simp
    qed
    with True t(1) show ?thesis by (simp add: for_loop_step)
  qed
qed

lemma same_config_defocus:
  assumes "same_config t s"
  shows "defocus_angle t = defocus_angle s"
proof -
  from assms have eq: "t\<lparr> image_buf := image_buf s, render_progress := render_progress s \<rparr> = s"
    by (simp add: same_config_def)
  from arg_cong [OF eq, of defocus_angle] show ?thesis by simp
qed

lemma render_sample_succeeds:
  assumes "defocus_angle t \<le> 0" "0 \<le> j * image_width t + i"
    "j * image_width t + i < int (length (image_buf t))"
  shows "\<exists>t'. render_sample world rnd j i k t = Inr t'"
  using assms
  by (simp add: render_sample_def get_ray_def pixel_sample_square_def Let_def split: prod.splits)

lemma render_thread_succeeds:
  assumes d: "defocus_angle s \<le> 0" and lo: "0 \<le> minRow" and hi: "maxRow \<le> H"
    and len: "int (length (image_buf s)) = H * image_width s"
    and tid: "0 \<le> threadId" "threadId < int (length (render_progress s))"
  shows "\<exists>s'. render_thread world rnd threadId minRow maxRow s = Inr s'"
proof -
  let ?I = "\<lambda>u. same_config u s \<and> length (image_buf u) = length (image_buf s)
              \<and> length (render_progress u) = length (render_progress s)"
  have sample: "\<exists>u'. render_sample world rnd j i k u = Inr u' \<and> ?I u'"
    if "?I u" "minRow \<le> j" "j < maxRow" "0 \<le> i" "i < image_width s" for j i k u
  proof -
    from that(1) have cfg: "same_config u s" by simp
    then have w: "image_width u = image_width s" by (simp add: same_configD)
    from that(2,3) lo hi have j: "0 \<le> j" "j < H" by simp_all
    from slot_in_range [OF j that(4,5)] that(1) len d
      render_sample_succeeds [of u j i world rnd k]
    obtain u' where u': "render_sample world rnd j i k u = Inr u'"
      by (auto simp: w same_config_defocus [OF cfg])
    from render_sample_frame [OF u'] that(1) same_config_trans [of u' u s]
    have "?I u'" by simp
    with u' show ?thesis by blast
  qed
  have pixel: "\<exists>u'. for_loop 0 (samples_per_pixel u)
                       (\<lambda>sample cs. render_sample world rnd j i sample cs) u = Inr u' \<and> ?I u'"
    if "?I u" "minRow \<le> j" "j < maxRow" "0 \<le> i" "i < image_width s" for j i u
    by (rule for_loop_total [where I = ?I, OF that(1)]) (rule sample [OF _ that(2-5)])
  have row: "\<exists>u'. for_loop 0 (image_width u)
                 (\<lambda>i ci. for_loop 0 (samples_per_pixel ci)
                            (\<lambda>sample cs. render_sample world rnd j i sample cs) ci) u = Inr u'
               \<and> ?I u'"
    if "?I u" "minRow \<le> j" "j < maxRow" for j u
  proof (rule for_loop_total [where I = ?I, OF that(1)])
    fix i t
    assume i: "0 \<le> i" "i < image_width u" and t: "?I t"
    from that(1) have "image_width u = image_width s" by (simp add: same_configD)
    with i have "i < image_width s" by simp
    from pixel [OF t that(2,3) i(1) this]
    show "\<exists>t'. for_loop 0 (samples_per_pixel t)
                  (\<lambda>sample cs. render_sample world rnd j i sample cs) t = Inr t' \<and> ?I t'" .
  qed
  have "\<exists>s'. for_loop minRow maxRow
       (\<lambda>j cj.
          case for_loop 0 (image_width cj)
                 (\<lambda>i ci. for_loop 0 (samples_per_pixel ci)
                            (\<lambda>sample cs. render_sample world rnd j i sample cs) ci) cj of
            Inl e \<Rightarrow> Inl e
          | Inr c' \<Rightarrow> bump_progress threadId c') s = Inr s' \<and> ?I s'"
  proof (rule for_loop_total [where I = ?I])
    show "?I s" by (simp add: same_config_refl)
  next
    fix j t
    assume j: "minRow \<le> j" "j < maxRow" and t: "?I t"
    from row [OF t j] obtain u where u: "for_loop 0 (image_width t)
                 (\<lambda>i ci. for_loop 0 (samples_per_pixel ci)
                            (\<lambda>sample cs. render_sample world rnd j i sample cs) ci) t = Inr u"
      and Iu: "?I u" by blast
    from Iu tid obtain t' where b: "bump_progress threadId u = Inr t'"
      by (auto simp: bump_progress_def)
    from bump_progress_frame [OF b] Iu same_config_trans [of t' u s] have "?I t'" by simp
    with u b show "\<exists>t'. (case for_loop 0 (image_width t)
                 (\<lambda>i ci. for_loop 0 (samples_per_pixel ci)
                            (\<lambda>sample cs. render_sample world rnd j i sample cs) ci) t of
            Inl e \<Rightarrow> Inl e
          | Inr c' \<Rightarrow> bump_progress threadId c') = Inr t' \<and> ?I t'"
      by simp
  qed
  then show ?thesis by (auto simp: render_thread_def)
qed

lemma sum_list_update_int:
  fixes xs :: "int list"
  shows "k < length xs \<Longrightarrow> sum_list (xs[k := x]) = sum_list xs + x - xs ! k"
  by (induction xs arbitrary: k) (auto split: nat.splits)

lemma render_thread_progress:
  assumes run: "render_thread world rnd threadId minRow maxRow s = Inr s'"
    and lo: "0 \<le> minRow" and le: "minRow \<le> maxRow"
  shows "length (render_progress s') = length (render_progress s)
       \<and> ((\<forall>x \<in> set (render_progress s). 0 \<le> x) \<longrightarrow> (\<forall>x \<in> set (render_progress s'). 0 \<le> x))
       \<and> sum_list (render_progress s') = sum_list (render_progress s) + (maxRow - minRow)"
proof -
  let ?I = "\<lambda>r u. length (render_progress u) = length (render_progress s)
       \<and> ((\<forall>x \<in> set (render_progress s). 0 \<le> x) \<longrightarrow> (\<forall>x \<in> set (render_progress u). 0 \<le> x))
       \<and> sum_list (render_progress u) = sum_list (render_progress s) + (r - minRow)"
  have "?I maxRow s'"
  proof (rule for_loop_invariant_indexed [OF run [unfolded render_thread_def] le, where I = ?I])
    show "?I minRow s" by simp
  next
    fix r u u'
    assume r: "minRow \<le> r" "r < maxRow" and I: "?I r u"
      and body: "(case for_loop 0 (image_width u)
                 (\<lambda>i ci. for_loop 0 (samples_per_pixel ci)
                            (\<lambda>sample cs. render_sample world rnd r i sample cs) ci) u of
            Inl e \<Rightarrow> Inl e
          | Inr c' \<Rightarrow> bump_progress threadId c') = Inr u'"
    from body obtain u1 where u1: "for_loop 0 (image_width u)
                 (\<lambda>i ci. for_loop 0 (samples_per_pixel ci)
                            (\<lambda>sample cs. render_sample world rnd r i sample cs) ci) u = Inr u1"
      and b: "bump_progress threadId u1 = Inr u'"
      by (auto split: sum.splits)
    from r lo have "0 \<le> r" by simp
    from row_loop_result [OF u1 this] have p1: "render_progress u1 = render_progress u" by simp
    from b have cond: "0 \<le> threadId \<and> threadId < int (length (render_progress u1))"
      by (simp add: bump_progress_def split: if_splits)
    then have tid: "0 \<le> threadId" "nat threadId < length (render_progress u)"
      unfolding p1 by linarith+
    from b cond have "u' = u1\<lparr> render_progress :=
                    (render_progress u1)[nat threadId := render_progress u1 ! nat threadId + 1] \<rparr>"
      by (simp add: bump_progress_def)
    then have u': "render_progress u' =
                 (render_progress u)[nat threadId := render_progress u ! nat threadId + 1]"
      by (simp add: p1)
    have len: "length (render_progress u') = length (render_progress u)" by (simp add: u')
    have sum1: "sum_list (render_progress u') = sum_list (render_progress u) + 1"
      using tid(2) by (simp add: u' sum_list_update_int)
    have nn1: "\<forall>x \<in> set (render_progress u'). 0 \<le> x"
      if nn: "\<forall>x \<in> set (render_progress u). 0 \<le> x"
    proof
      fix x
      assume "x \<in> set (render_progress u')"
      then have "x \<in> set ((render_progress u)[nat threadId := render_progress u ! nat threadId + 1])"
        by (simp only: u')
      then have "x \<in> insert (render_progress u ! nat threadId + 1) (set (render_progress u))"
        by (rule subsetD [OF set_update_subset_insert])
      moreover from nn tid(2) have "0 \<le> render_progress u ! nat threadId" by simp
      ultimately show "0 \<le> x" using nn by auto
    qed
    from I have Il: "length (render_progress u) = length (render_progress s)"
      and In: "(\<forall>x \<in> set (render_progress s). 0 \<le> x) \<longrightarrow> (\<forall>x \<in> set (render_progress u). 0 \<le> x)"
      and Is: "sum_list (render_progress u) = sum_list (render_progress s) + (r - minRow)"
      by blast+
    show "?I (r + 1) u'"
    proof (intro conjI impI)
      show "length (render_progress u') = length (render_progress s)" using len Il by simp
      show "\<forall>x \<in> set (render_progress u'). 0 \<le> x" if "\<forall>x \<in> set (render_progress s). 0 \<le> x"
        using that In by (intro nn1) blast
      show "sum_list (render_progress u') = sum_list (render_progress s) + (r + 1 - minRow)"
        using sum1 Is by simp
    qed
  qed
  then show ?thesis by simp
qed

lemma run_workers_total:
  assumes "defocus_angle s \<le> 0" and "int (length (image_buf s)) = H * image_width s"
    and "\<forall>a \<in> set ws. 0 \<le> fst a \<and> fst a < int (length (render_progress s))
           \<and> 0 \<le> fst (snd a) \<and> fst (snd a) \<le> snd (snd a) \<and> snd (snd a) \<le> H"
    and "\<forall>x \<in> set (render_progress s). 0 \<le> x"
  shows "\<exists>s'. run_workers world rnd ws s = Inr s'
           \<and> (\<forall>x \<in> set (render_progress s'). 0 \<le> x)
           \<and> sum_list (render_progress s') =
               sum_list (render_progress s) + sum_list (map (\<lambda>a. snd (snd a) - fst (snd a)) ws)"
  using assms
proof (induction ws arbitrary: s)
  case Nil
  then show ?case by simp
next
  case (Cons a ws)
  obtain tid lo hi where a: "a = (tid, lo, hi)" by (cases a)
  from Cons.prems(3) a have b: "0 \<le> tid" "tid < int (length (render_progress s))"
    "0 \<le> lo" "lo \<le> hi" "hi \<le> H" by simp_all
  from render_thread_succeeds [OF Cons.prems(1) b(3,5) Cons.prems(2) b(1,2)]
  obtain s1 where t: "render_thread world rnd tid lo hi s = Inr s1" by blast
  from render_thread_pixels [OF t b(3)]
  have cfg: "same_config s1 s" and len: "length (image_buf s1) = length (image_buf s)" by simp_all
  from render_thread_progress [OF t b(3,4)] Cons.prems(4)
  have pr: "length (render_progress s1) = length (render_progress s)"
    "\<forall>x \<in> set (render_progress s1). 0 \<le> x"
    "sum_list (render_progress s1) = sum_list (render_progress s) + (hi - lo)"
    by simp_all
  have d1: "defocus_angle s1 \<le> 0" using Cons.prems(1) by (simp add: same_config_defocus [OF cfg])
  have l1: "int (length (image_buf s1)) = H * image_width s1"
    using Cons.prems(2) by (simp add: len same_configD [OF cfg])
  have w1: "\<forall>a \<in> set ws. 0 \<le> fst a \<and> fst a < int (length (render_progress s1))
           \<and> 0 \<le> fst (snd a) \<and> fst (snd a) \<le> snd (snd a) \<and> snd (snd a) \<le> H"
    using Cons.prems(3) by (simp add: pr(1))
  from Cons.IH [OF d1 l1 w1 pr(2)] obtain s' where
    "run_workers world rnd ws s1 = Inr s'" "\<forall>x \<in> set (render_progress s'). 0 \<le> x"
    "sum_list (render_progress s') =
       sum_list (render_progress s1) + sum_list (map (\<lambda>a. snd (snd a) - fst (snd a)) ws)"
    by blast
  with t a pr(3) show ?case by simp
qed

lemma worker_rows_total:
  assumes H: "1 \<le> image_height c" and T: "1 \<le> max_threads c"
  shows "sum_list (map (\<lambda>a. snd (snd a) - fst (snd a)) (worker_args c)) = image_height c"
proof -
  let ?T = "max_threads c"
  let ?ofs = "c_div (image_height c) ?T"
  let ?g = "\<lambda>i. (if i < ?T - 1 then i * ?ofs + ?ofs else image_height c) - i * ?ofs"
  have m: "map (\<lambda>a. snd (snd a) - fst (snd a)) (worker_args c) = map ?g [0..?T - 1]"
    by (simp add: worker_args_def Let_def comp_def)
  from T have split: "[0..?T - 1] = [0..?T - 2] @ [?T - 1]"
    using upto_rec2 [of 0 "?T - 1"] by simp
  have e: "map ?g [0..?T - 2] = map (\<lambda>i. ?ofs) [0..?T - 2]"
    by (rule map_cong) simp_all
  have "sum_list (map ?g [0..?T - 2]) = sum_list (map (\<lambda>i. ?ofs) [0..?T - 2])"
    by (simp only: e)
  also have "\<dots> = (?T - 1) * ?ofs"
    using T by (simp add: sum_list_triv)
  finally have "sum_list (map ?g [0..?T - 2]) = (?T - 1) * ?ofs" .
  then show ?thesis unfolding m split by (simp add: algebra_simps)
qed

lemma sum_progress_ok:
  assumes "\<forall>x \<in> set ns. 0 \<le> x" "0 \<le> acc" "acc + sum_list ns < 2 ^ 31"
  shows "sum_progress ns acc = Inr (acc + sum_list ns)"
  using assms
proof (induction ns arbitrary: acc)
  case Nil
  then show ?case by simp
next
  case (Cons n ns)
  from Cons.prems have n: "0 \<le> n" "\<forall>x \<in> set ns. 0 \<le> x" by simp_all
  have "0 \<le> sum_list ns" by (rule sum_list_nonneg) (use n(2) in auto)
  with Cons.prems n have ok: "int_ok (acc + n)" by (simp add: int_ok_def)
  from Cons.prems n have "0 \<le> acc + n" "acc + n + sum_list ns < 2 ^ 31" by simp_all
  from Cons.IH [OF n(2) this] ok show ?case by (simp add: int_add_def algebra_simps)
qed

lemma render_total:
  assumes H: "1 \<le> image_height c" and W: "1 \<le> image_width c"
    and HW: "image_height c * image_width c < 2 ^ 31"
    and T: "1 \<le> max_threads c" and d: "defocus_angle c \<le> 0"
  shows "\<exists>c3. render world rnd c = Inr c3"
proof -
  from H W have "0 \<le> image_height c * image_width c" by simp
  from initialize_succeeds [OF this HW] T obtain c1 where i: "initialize c = Inr c1" by auto
  note b = initialize_buffers [OF i]
  from b(3) T have T1: "max_threads c1 = max_threads c" by simp
  have args: "worker_args c1 = worker_args c"
    using b(4) T1 by (intro worker_args_cong) simp_all
  have d1: "defocus_angle c1 \<le> 0"
    using i d by (auto simp: initialize_def Let_def split: sum.splits)
  have l1: "int (length (image_buf c1)) = image_height c * image_width c1"
    using H W by (simp add: b(1,5))
  have w1: "\<forall>a \<in> set (worker_args c1). 0 \<le> fst a \<and> fst a < int (length (render_progress c1))
           \<and> 0 \<le> fst (snd a) \<and> fst (snd a) \<le> snd (snd a) \<and> snd (snd a) \<le> image_height c"
  proof
    fix a
    assume "a \<in> set (worker_args c1)"
    then obtain k where k: "k < length (worker_args c)" "a = worker_args c ! k"
      by (auto simp: in_set_conv_nth args)
    from worker_args_rows(1) [OF H T k(1)] k length_worker_args [of c] T
    show "0 \<le> fst a \<and> fst a < int (length (render_progress c1))
           \<and> 0 \<le> fst (snd a) \<and> fst (snd a) \<le> snd (snd a) \<and> snd (snd a) \<le> image_height c"
      by (simp add: b(2))
  qed
  have z: "\<forall>x \<in> set (render_progress c1). 0 \<le> x" by (simp add: b(2))
  from run_workers_total [OF d1 l1 w1 z, of world rnd] obtain c2 where
    c2: "run_workers world rnd (worker_args c1) c1 = Inr c2"
    and nn: "\<forall>x \<in> set (render_progress c2). 0 \<le> x"
    and sum: "sum_list (render_progress c2) =
               sum_list (render_progress c1)
               + sum_list (map (\<lambda>a. snd (snd a) - fst (snd a)) (worker_args c1))"
    by blast
  have s0: "sum_list (render_progress c1) = 0" by (simp add: b(2) sum_list_replicate)
  from sum have total: "sum_list (render_progress c2) = image_height c"
    by (simp add: s0 args worker_rows_total [OF H T])
  from H W HW have "image_height c < 2 ^ 31"
  proof -
    from H W have "image_height c * 1 \<le> image_height c * image_width c"
      by (intro mult_left_mono) simp_all
    with HW show ?thesis by simp
  qed
  with sum_progress_ok [OF nn, of 0] total
  have sp: "sum_progress (render_progress c2) 0 = Inr (image_height c)" by simp
  from run_workers_pixels [OF c2 worker_args_nonneg worker_args_sorted, of 0 0] H T W b(3,4,5)
  have "same_config c2 c1" by simp
  then have h2: "image_height c2 = image_height c" by (simp add: same_configD b(4))
  from sp h2 H have "progress_loop [c2] c2 0 (- 1) [] = Some (Inr (c2, 100, [100]))"
    using progress_loop_exit [of 0 c2 "[]" c2 "- 1" "[]"] by simp
  then have "\<exists>out. print_render_progress [c2] c2
                = Some (Inr (c2\<lparr> render_progress := fill 0 (render_progress c2) \<rparr>, out))"
    by (simp add: print_render_progress_def)
  with i c2 show ?thesis by (auto simp: render_def)
qed


lemma run_workers_same_config:
  "run_workers world rnd ws s = Inr s' \<Longrightarrow> same_config s' s"
proof (induction ws arbitrary: s)
  case Nil
  then show ?case by (simp add: same_config_refl)
next
  case (Cons a ws)
  obtain tid lo hi where a: "a = (tid, lo, hi)" by (cases a)
  from Cons.prems a obtain s1 where t: "render_thread world rnd tid lo hi s = Inr s1"
    and rest: "run_workers world rnd ws s1 = Inr s'"
    by (auto split: sum.splits)
  from render_thread_frame [OF t] have "same_config s1 s" by (simp add: frame_inv_def)
  with Cons.IH [OF rest] show ?case by (rule same_config_trans)
qed

lemma render_same_config:
  assumes "render world rnd c = Inr c3" and "initialize c = Inr c1"
  shows "same_config c3 c1"
proof -
  from render_run [OF assms(1)] assms(2) obtain c2 where
    w: "run_workers world rnd (worker_args c1) c1 = Inr c2"
    and c3: "c3 = c2\<lparr> render_progress := fill 0 (render_progress c2) \<rparr>"
    by auto
  from run_workers_same_config [OF w] c3 show ?thesis by (simp add: same_config_def)
qed

subsection \<open>Renders of the example scenes\<close>

lemma render_thread_sky_0:
  "render_thread sky_world half_draws 0 0 1 small_init =
     Inr (small_init\<lparr> image_buf := [Vec3 (1 / 2) (7 / 10) 1, Vec3 (1 / 2) (7 / 10) 1,
                                     Vec3 0 0 0, Vec3 0 0 0, Vec3 0 0 0, Vec3 0 0 0],
                       render_progress := [1, 0] \<rparr>)"
  by (simp add: camera_eval render_thread_eval sky_world_def vec_defs eval_nat_numeral)

lemma render_thread_sky_1:
  "render_thread sky_world half_draws 1 1 3
     (small_init\<lparr> image_buf := [Vec3 (1 / 2) (7 / 10) 1, Vec3 (1 / 2) (7 / 10) 1,
                                     Vec3 0 0 0, Vec3 0 0 0, Vec3 0 0 0, Vec3 0 0 0],
                       render_progress := [1, 0] \<rparr>) =
     Inr (small_init\<lparr> image_buf := replicate 6 (Vec3 (1 / 2) (7 / 10) 1),
                       render_progress := [1, 2] \<rparr>)"
  by (simp add: camera_eval render_thread_eval sky_world_def vec_defs eval_nat_numeral)

lemma print_render_progress_sky:
  "print_render_progress
      [small_init\<lparr> image_buf := replicate 6 (Vec3 (1 / 2) (7 / 10) 1), render_progress := [1, 2] \<rparr>]
      (small_init\<lparr> image_buf := replicate 6 (Vec3 (1 / 2) (7 / 10) 1), render_progress := [1, 2] \<rparr>)
   = Some (Inr (small_init\<lparr> image_buf := replicate 6 (Vec3 (1 / 2) (7 / 10) 1) \<rparr>, [100, 100]))"
  by (simp add: camera_eval monitor_eval eval_nat_numeral)

lemma render_sky_small_camera:
  "render sky_world half_draws small_camera
     = Inr (small_init\<lparr> image_buf := replicate 6 (Vec3 (1 / 2) (7 / 10) 1) \<rparr>)"
  by (simp add: render_def initialize_small_camera worker_args_small_init
      render_thread_sky_0 render_thread_sky_1 print_render_progress_sky)

lemma initialize_no_samples: "initialize no_samples_camera = Inr no_samples_init"
  by (simp add: initialize_def no_samples_camera_def no_samples_init_def camera_eval Let_def
      int_mul_def int_ok_def resize_def fill_def degrees_to_radians_def tan_45 vec_defs)

lemma worker_args_no_samples: "worker_args no_samples_init = [(0, 0, 1), (1, 1, 3)]"
  by (simp add: no_samples_init_def camera_eval worker_args_def c_div_def Let_def upto_rec1)

lemma render_thread_no_samples_0:
  "render_thread sky_world half_draws 0 0 1 no_samples_init =
     Inr (no_samples_init\<lparr> render_progress := [1, 0] \<rparr>)"
  by (simp add: no_samples_init_def camera_eval render_thread_eval eval_nat_numeral)

lemma render_thread_no_samples_1:
  "render_thread sky_world half_draws 1 1 3 (no_samples_init\<lparr> render_progress := [1, 0] \<rparr>) =
     Inr (no_samples_init\<lparr> render_progress := [1, 2] \<rparr>)"
  by (simp add: no_samples_init_def camera_eval render_thread_eval eval_nat_numeral)

lemma print_render_progress_no_samples:
  "print_render_progress [no_samples_init\<lparr> render_progress := [1, 2] \<rparr>]
      (no_samples_init\<lparr> render_progress := [1, 2] \<rparr>) = Some (Inr (no_samples_init, [100, 100]))"
  by (simp add: no_samples_init_def camera_eval monitor_eval eval_nat_numeral)

lemma render_no_samples_camera:
  "render sky_world half_draws no_samples_camera = Inr no_samples_init"
  by (simp add: render_def initialize_no_samples worker_args_no_samples
      render_thread_no_samples_0 render_thread_no_samples_1 print_render_progress_no_samples)


subsection \<open>The row partition\<close>

text \<open>
  Claim C1 says that, with \<open>image_height \<ge> 1\<close> and a thread count of at least one, the
  row ranges of the workers partition the rows, and that consequently each
  framebuffer slot is written by exactly one worker. The rows are partitioned, but a
  slot is written only when there is a sample to add to it: for the small camera with
  \<open>samples_per_pixel = 0\<close>, in a scene whose every sample is the colour of the sky,
  both workers return the framebuffer as they found it and \<^verbatim>\<open>render\<close> returns it black,
  where with one sample per pixel every slot holds the colour of the sky. No slot is
  written by any worker.
\<close>

theorem render_no_samples_writes_nothing:
  "1 \<le> image_height no_samples_camera \<and> 1 \<le> max_threads no_samples_camera
   \<and> samples_per_pixel no_samples_camera = 0
   \<and> initialize no_samples_camera = Inr no_samples_init
   \<and> image_buf no_samples_init = replicate 6 (Vec3 0 0 0)
   \<and> worker_args no_samples_init = [(0, 0, 1), (1, 1, 3)]
   \<and> render_thread sky_world half_draws 0 0 1 no_samples_init =
       Inr (no_samples_init\<lparr> render_progress := [1, 0] \<rparr>)
   \<and> render_thread sky_world half_draws 1 1 3 (no_samples_init\<lparr> render_progress := [1, 0] \<rparr>) =
       Inr (no_samples_init\<lparr> render_progress := [1, 2] \<rparr>)
   \<and> render sky_world half_draws no_samples_camera = Inr no_samples_init
   \<and> render sky_world half_draws small_camera
       = Inr (small_init\<lparr> image_buf := replicate 6 (Vec3 (1 / 2) (7 / 10) 1) \<rparr>)"
  by (simp add: initialize_no_samples worker_args_no_samples render_thread_no_samples_0
      render_thread_no_samples_1 render_no_samples_camera render_sky_small_camera)
    (simp add: no_samples_camera_def no_samples_init_def camera_eval)

text \<open>
  Claim C1 as amended. With \<open>image_height \<ge> 1\<close> and \<open>max_threads \<ge> 1\<close>, the spawn loop
  of \<^verbatim>\<open>render\<close> creates \<open>max_threads\<close> workers, numbered in order, before and after
  \<^verbatim>\<open>initialize\<close> the same, whose row ranges are contiguous (the first starts at row 0,
  each starts where the one before ends, the last ends at \<open>image_height\<close>), pairwise
  disjoint, and cover exactly the rows \<open>0 \<le> j < image_height\<close>. The framebuffer slots
  of two workers' rows are disjoint, and every slot \<open>0 \<le> p < image_width *
  image_height\<close> is among the slots of exactly one worker. A run of \<^const>\<open>render_thread\<close>
  with a worker's arguments, from any state of the camera with this configuration,
  changes no slot outside the worker's rows, and adds to each slot of its rows the
  \<open>samples_per_pixel\<close> samples of that pixel: so a slot is written by the one worker
  that owns its row, once per sample, and by no worker at all when \<open>samples_per_pixel
  \<le> 0\<close>. When \<^verbatim>\<open>render\<close> returns, every slot holds the sum of the samples of its own
  pixel, added to black.
\<close>

theorem render_rows_partition:
  assumes "1 \<le> image_height c" and "1 \<le> max_threads c"
  shows "length (worker_args c) = nat (max_threads c)
    \<and> (\<forall>c1. initialize c = Inr c1 \<longrightarrow> worker_args c1 = worker_args c)
    \<and> fst (snd (hd (worker_args c))) = 0
    \<and> snd (snd (last (worker_args c))) = image_height c
    \<and> (\<forall>k. Suc k < length (worker_args c) \<longrightarrow>
          snd (snd (worker_args c ! k)) = fst (snd (worker_args c ! Suc k)))
    \<and> (\<forall>k < length (worker_args c).
          fst (worker_args c ! k) = int k \<and>
          fst (snd (worker_args c ! k)) \<le> snd (snd (worker_args c ! k)))
    \<and> (\<forall>a b. a < length (worker_args c) \<and> b < length (worker_args c) \<and> a \<noteq> b \<longrightarrow>
          worker_rows (worker_args c ! a) \<inter> worker_rows (worker_args c ! b) = {})
    \<and> (\<Union>a \<in> set (worker_args c). worker_rows a) = {0..<image_height c}
    \<and> (\<forall>a b. a < length (worker_args c) \<and> b < length (worker_args c) \<and> a \<noteq> b \<longrightarrow>
          worker_slots c (worker_args c ! a) \<inter> worker_slots c (worker_args c ! b) = {})
    \<and> (\<forall>p. 0 \<le> p \<and> p < image_width c * image_height c \<longrightarrow>
          (\<exists>!k. k < length (worker_args c) \<and> p \<in> worker_slots c (worker_args c ! k)))
    \<and> (\<forall>a (world :: 'm hittable) rnd s s'.
          same_config s c \<and>
          render_thread world rnd (fst a) (fst (snd a)) (snd (snd a)) s = Inr s' \<longrightarrow>
          length (image_buf s') = length (image_buf s) \<and>
          (\<forall>p. int p \<notin> worker_slots c a \<longrightarrow> image_buf s' ! p = image_buf s ! p))
    \<and> (\<forall>k (world :: 'm hittable) rnd s s' j i.
          k < length (worker_args c) \<and> same_config s c \<and>
          render_thread world rnd (fst (worker_args c ! k)) (fst (snd (worker_args c ! k)))
            (snd (snd (worker_args c ! k))) s = Inr s' \<and>
          j \<in> worker_rows (worker_args c ! k) \<and> 0 \<le> i \<and> i < image_width c \<longrightarrow>
          pixel_sum world rnd c j i (samples_per_pixel c)
              (image_buf s ! nat (j * image_width c + i))
            = Some (image_buf s' ! nat (j * image_width c + i)))
    \<and> (samples_per_pixel c \<le> 0 \<longrightarrow>
         (\<forall>a (world :: 'm hittable) rnd s s'.
            same_config s c \<and>
            render_thread world rnd (fst a) (fst (snd a)) (snd (snd a)) s = Inr s' \<longrightarrow>
            image_buf s' = image_buf s))
    \<and> (\<forall>(world :: 'm hittable) rnd c3 j i.
          render world rnd c = Inr c3 \<and> 0 \<le> j \<and> j < image_height c
          \<and> 0 \<le> i \<and> i < image_width c \<longrightarrow>
          (\<exists>c1. initialize c = Inr c1
             \<and> pixel_sum world rnd c1 j i (samples_per_pixel c) (Vec3 0 0 0)
                 = Some (image_buf c3 ! nat (j * image_width c + i))))"
proof (intro conjI)
  show "\<forall>c1. initialize c = Inr c1 \<longrightarrow> worker_args c1 = worker_args c"
  proof (intro allI impI)
    fix c1
    assume "initialize c = Inr c1"
    from initialize_buffers(3,4) [OF this] assms(2) show "worker_args c1 = worker_args c"
      by (intro worker_args_cong) simp_all
  qed
  show "\<forall>a (world :: 'm hittable) rnd s s'.
          same_config s c \<and>
          render_thread world rnd (fst a) (fst (snd a)) (snd (snd a)) s = Inr s' \<longrightarrow>
          length (image_buf s') = length (image_buf s) \<and>
          (\<forall>p. int p \<notin> worker_slots c a \<longrightarrow> image_buf s' ! p = image_buf s ! p)"
    using worker_frame by blast
  show "\<forall>k (world :: 'm hittable) rnd s s' j i.
          k < length (worker_args c) \<and> same_config s c \<and>
          render_thread world rnd (fst (worker_args c ! k)) (fst (snd (worker_args c ! k)))
            (snd (snd (worker_args c ! k))) s = Inr s' \<and>
          j \<in> worker_rows (worker_args c ! k) \<and> 0 \<le> i \<and> i < image_width c \<longrightarrow>
          pixel_sum world rnd c j i (samples_per_pixel c)
              (image_buf s ! nat (j * image_width c + i))
            = Some (image_buf s' ! nat (j * image_width c + i))"
  proof (intro allI impI, elim conjE)
    fix k and world :: "'m hittable" and rnd s s' j i
    assume k: "k < length (worker_args c)" and cfg: "same_config s c"
      and run: "render_thread world rnd (fst (worker_args c ! k)) (fst (snd (worker_args c ! k)))
            (snd (snd (worker_args c ! k))) s = Inr s'"
      and j: "j \<in> worker_rows (worker_args c ! k)" and i: "0 \<le> i" "i < image_width c"
    from worker_args_rows(1) [OF assms k] have "0 \<le> fst (snd (worker_args c ! k))" by simp
    from worker_adds [OF cfg run this j i]
    show "pixel_sum world rnd c j i (samples_per_pixel c)
              (image_buf s ! nat (j * image_width c + i))
            = Some (image_buf s' ! nat (j * image_width c + i))" .
  qed
  show "samples_per_pixel c \<le> 0 \<longrightarrow>
         (\<forall>a (world :: 'm hittable) rnd s s'.
            same_config s c \<and>
            render_thread world rnd (fst a) (fst (snd a)) (snd (snd a)) s = Inr s' \<longrightarrow>
            image_buf s' = image_buf s)"
    using worker_idle by blast
  show "\<forall>(world :: 'm hittable) rnd c3 j i.
          render world rnd c = Inr c3 \<and> 0 \<le> j \<and> j < image_height c
          \<and> 0 \<le> i \<and> i < image_width c \<longrightarrow>
          (\<exists>c1. initialize c = Inr c1
             \<and> pixel_sum world rnd c1 j i (samples_per_pixel c) (Vec3 0 0 0)
                 = Some (image_buf c3 ! nat (j * image_width c + i)))"
    using render_pixels [OF _ assms] by blast
qed (use length_worker_args [of c] worker_args_rows(1,4,5,6) [OF assms]
      worker_rows_disjoint [OF assms] worker_rows_union [OF assms]
      worker_slots_disjoint [OF assms] worker_slots_cover [OF assms] in simp_all)


theorem render_rows_partition_witness:
  "1 \<le> image_height small_init \<and> 1 \<le> max_threads small_init
   \<and> worker_args small_init = [(0, 0, 1), (1, 1, 3)]
   \<and> worker_rows (0, 0, 1) = {0..<1} \<and> worker_rows (1, 1, 3) = {1..<3}
   \<and> worker_rows (0, 0, 1) \<inter> worker_rows (1, 1, 3) = {}
   \<and> worker_rows (0, 0, 1) \<union> worker_rows (1, 1, 3) = {0..<image_height small_init}
   \<and> worker_slots small_init (0, 0, 1) \<inter> worker_slots small_init (1, 1, 3) = {}
   \<and> (0::int) \<le> 4 \<and> 4 < image_width small_init * image_height small_init
   \<and> (\<exists>!k. k < length (worker_args small_init)
            \<and> 4 \<in> worker_slots small_init (worker_args small_init ! k))
   \<and> same_config small_init small_init
   \<and> render_thread sky_world half_draws 0 0 1 small_init =
       Inr (small_init\<lparr> image_buf := [Vec3 (1 / 2) (7 / 10) 1, Vec3 (1 / 2) (7 / 10) 1,
                                       Vec3 0 0 0, Vec3 0 0 0, Vec3 0 0 0, Vec3 0 0 0],
                         render_progress := [1, 0] \<rparr>)
   \<and> 4 \<notin> worker_slots small_init (0, 0, 1)
   \<and> [Vec3 (1 / 2) (7 / 10) 1, Vec3 (1 / 2) (7 / 10) 1,
        Vec3 0 0 0, Vec3 0 0 0, Vec3 0 0 0, Vec3 0 0 0] ! 4 = image_buf small_init ! 4
   \<and> (0::int) \<in> worker_rows (0, 0, 1) \<and> (0::int) \<le> 1 \<and> 1 < image_width small_init
   \<and> pixel_sum sky_world half_draws small_init 0 1 (samples_per_pixel small_init)
         (image_buf small_init ! nat (0 * image_width small_init + 1))
       = Some (Vec3 (1 / 2) (7 / 10) 1)
   \<and> 1 \<le> image_height small_camera \<and> 1 \<le> max_threads small_camera
   \<and> initialize small_camera = Inr small_init
   \<and> worker_args small_init = worker_args small_camera
   \<and> render sky_world half_draws small_camera
       = Inr (small_init\<lparr> image_buf := replicate 6 (Vec3 (1 / 2) (7 / 10) 1) \<rparr>)
   \<and> (0::int) \<le> 2 \<and> 2 < image_height small_camera \<and> 1 < image_width small_camera
   \<and> pixel_sum sky_world half_draws small_init 2 1 (samples_per_pixel small_camera) (Vec3 0 0 0)
       = Some (Vec3 (1 / 2) (7 / 10) 1)
   \<and> 1 \<le> image_height no_samples_init \<and> 1 \<le> max_threads no_samples_init
   \<and> samples_per_pixel no_samples_init \<le> 0
   \<and> same_config no_samples_init no_samples_init
   \<and> render_thread sky_world half_draws 0 0 1 no_samples_init =
       Inr (no_samples_init\<lparr> render_progress := [1, 0] \<rparr>)
   \<and> image_buf (no_samples_init\<lparr> render_progress := [1, 0] \<rparr>) = image_buf no_samples_init"
proof -
  have hyp: "1 \<le> image_height small_init" "1 \<le> max_threads small_init"
    "4 < image_width small_init * image_height small_init" "1 < image_width small_init"
    by (simp_all add: camera_eval)
  have hyq: "1 \<le> image_height small_camera" "1 \<le> max_threads small_camera"
    "2 < image_height small_camera" "1 < image_width small_camera"
    by (simp_all add: camera_eval)
  have hyr: "1 \<le> image_height no_samples_init" "1 \<le> max_threads no_samples_init"
    "samples_per_pixel no_samples_init \<le> 0"
    by (simp_all add: no_samples_init_def camera_eval)
  note P = render_rows_partition [OF hyp(1,2), where ?'m = unit]
  note Q = render_rows_partition [OF hyq(1,2), where ?'m = unit]
  note R = render_rows_partition [OF hyr(1,2), where ?'m = unit]
  have len: "length (worker_args small_init) = 2" and nth: "worker_args small_init ! 0 = (0, 0, 1)"
    "worker_args small_init ! Suc 0 = (1, 1, 3)"
    by (simp_all add: worker_args_small_init)
  have rows: "worker_rows (0, 0, 1) = {0..<1}" "worker_rows (1, 1, 3) = {1..<3}"
    by (simp_all add: worker_rows_def)
  note c7 = P [THEN conjunct2, THEN conjunct2, THEN conjunct2, THEN conjunct2, THEN conjunct2, THEN conjunct2, THEN conjunct1]
    and c8 = P [THEN conjunct2, THEN conjunct2, THEN conjunct2, THEN conjunct2, THEN conjunct2, THEN conjunct2, THEN conjunct2, THEN conjunct1]
    and c9 = P [THEN conjunct2, THEN conjunct2, THEN conjunct2, THEN conjunct2, THEN conjunct2, THEN conjunct2, THEN conjunct2, THEN conjunct2, THEN conjunct1]
    and c10 = P [THEN conjunct2, THEN conjunct2, THEN conjunct2, THEN conjunct2, THEN conjunct2, THEN conjunct2, THEN conjunct2, THEN conjunct2, THEN conjunct2, THEN conjunct1]
    and c11 = P [THEN conjunct2, THEN conjunct2, THEN conjunct2, THEN conjunct2, THEN conjunct2, THEN conjunct2, THEN conjunct2, THEN conjunct2, THEN conjunct2, THEN conjunct2, THEN conjunct1]
    and c12 = P [THEN conjunct2, THEN conjunct2, THEN conjunct2, THEN conjunct2, THEN conjunct2, THEN conjunct2, THEN conjunct2, THEN conjunct2, THEN conjunct2, THEN conjunct2, THEN conjunct2, THEN conjunct1]
    and q2 = Q [THEN conjunct2, THEN conjunct1]
    and q14 = Q [THEN conjunct2, THEN conjunct2, THEN conjunct2, THEN conjunct2, THEN conjunct2, THEN conjunct2, THEN conjunct2, THEN conjunct2, THEN conjunct2, THEN conjunct2, THEN conjunct2, THEN conjunct2, THEN conjunct2]
    and r13 = R [THEN conjunct2, THEN conjunct2, THEN conjunct2, THEN conjunct2, THEN conjunct2, THEN conjunct2, THEN conjunct2, THEN conjunct2, THEN conjunct2, THEN conjunct2, THEN conjunct2, THEN conjunct2, THEN conjunct1]
  from c8 have u: "worker_rows (0, 0, 1) \<union> worker_rows (1, 1, 3) = {0..<image_height small_init}"
    by (simp add: worker_args_small_init)
  from c7 [rule_format, of 0 "Suc 0"]
  have d: "worker_rows (0, 0, 1) \<inter> worker_rows (1, 1, 3) = {}" by (simp add: len nth)
  from c9 [rule_format, of 0 "Suc 0"]
  have sd: "worker_slots small_init (0, 0, 1) \<inter> worker_slots small_init (1, 1, 3) = {}"
    by (simp add: len nth)
  from c10 [rule_format, of 4] hyp(3)
  have ex: "\<exists>!k. k < length (worker_args small_init)
            \<and> 4 \<in> worker_slots small_init (worker_args small_init ! k)"
    by simp
  have notin: "4 \<notin> worker_slots small_init (0, 0, 1)"
  proof
    assume "4 \<in> worker_slots small_init (0, 0, 1)"
    then obtain i :: int where "0 \<le> i" "i < 2" "4 = 0 * 2 + i"
      by (auto simp: worker_slots_def worker_rows_def camera_eval)
    then show False by simp
  qed
  from c11 [rule_format, where a = "(0, 0, 1)" and s = small_init and world = sky_world
      and rnd = half_draws]
    render_thread_sky_0 same_config_refl [of small_init]
  have "\<forall>p. int p \<notin> worker_slots small_init (0, 0, 1) \<longrightarrow>
    [Vec3 (1 / 2) (7 / 10) 1, Vec3 (1 / 2) (7 / 10) 1,
        Vec3 0 0 0, Vec3 0 0 0, Vec3 0 0 0, Vec3 0 0 0] ! p = image_buf small_init ! p"
    by simp
  from this [rule_format, of 4] notin
  have keep: "[Vec3 (1 / 2) (7 / 10) 1, Vec3 (1 / 2) (7 / 10) 1,
        Vec3 0 0 0, Vec3 0 0 0, Vec3 0 0 0, Vec3 0 0 0] ! 4 = image_buf small_init ! 4"
    by simp
  from c12 [rule_format, where k = 0 and world = sky_world and rnd = half_draws
      and s = small_init and j = 0 and i = 1]
    render_thread_sky_0 same_config_refl [of small_init] hyp(4)
  have add: "pixel_sum sky_world half_draws small_init 0 1 (samples_per_pixel small_init)
         (image_buf small_init ! nat (0 * image_width small_init + 1))
       = Some (Vec3 (1 / 2) (7 / 10) 1)"
    by (simp add: len nth rows)
  from q2 [rule_format, OF initialize_small_camera]
  have args: "worker_args small_init = worker_args small_camera" .
  from q14 [rule_format, where world = sky_world and rnd = half_draws and j = 2 and i = 1]
    render_sky_small_camera hyq(3,4)
  have "\<exists>c1. initialize small_camera = Inr c1
             \<and> pixel_sum sky_world half_draws c1 2 1 (samples_per_pixel small_camera) (Vec3 0 0 0)
                 = Some (image_buf (small_init\<lparr> image_buf := replicate 6 (Vec3 (1 / 2) (7 / 10) 1) \<rparr>)
                           ! nat (2 * image_width small_camera + 1))"
    by simp
  then have sum: "pixel_sum sky_world half_draws small_init 2 1 (samples_per_pixel small_camera)
        (Vec3 0 0 0) = Some (Vec3 (1 / 2) (7 / 10) 1)"
    by (simp add: initialize_small_camera) (simp add: camera_eval)
  from r13 [rule_format, OF hyr(3), where a = "(0, 0, 1)" and world = sky_world
      and rnd = half_draws and s = no_samples_init]
    render_thread_no_samples_0 same_config_refl [of no_samples_init]
  have idle: "image_buf (no_samples_init\<lparr> render_progress := [1, 0] \<rparr>) = image_buf no_samples_init"
    by simp
  have more: "(0::int) \<in> worker_rows (0, 0, 1)" by (simp add: rows)
  from hyp hyq hyr worker_args_small_init rows u d sd ex notin keep add args sum idle more
    render_thread_sky_0 render_thread_no_samples_0 render_sky_small_camera
    initialize_small_camera same_config_refl [of small_init] same_config_refl [of no_samples_init]
  show ?thesis
    by (intro conjI) simp_all
qed


subsection \<open>A view direction of length zero\<close>

text \<open>
  Claim C6 says that \<^verbatim>\<open>render\<close> rejects a camera whose eye equals its look-at point
  as a configuration error, before a worker is spawned. It does not: the code checks
  nothing about the view direction. For the small camera with the eye on the look-at
  point, \<^verbatim>\<open>initialize\<close> succeeds, the two workers are spawned, and \<^verbatim>\<open>render\<close> returns
  without an error.
\<close>

theorem render_degenerate_view_not_rejected:
  "lookfrom degenerate_camera = lookat degenerate_camera
   \<and> map_sum id worker_args (initialize degenerate_camera) = Inr [(0, 0, 1), (1, 1, 3)]
   \<and> \<not> isl (render mirror_world half_draws degenerate_camera)"
  by (simp add: render_degenerate_camera initialize_degenerate_camera worker_args_degenerate_init)
    (simp add: degenerate_camera_def camera_eval)

text \<open>
  Claim C6 as amended. For a camera whose eye equals its look-at point, \<^verbatim>\<open>render\<close>
  does not reject the configuration: neither \<^verbatim>\<open>initialize\<close> nor \<^verbatim>\<open>render\<close> looks at the
  view direction. When \<open>image_height * image_width\<close> is a non-negative \<^verbatim>\<open>int\<close> and
  \<open>max_threads\<close> is not negative, \<^verbatim>\<open>initialize\<close> succeeds; it stores the normalised
  zero vector as \<open>w\<close> and derives \<open>u\<close> and \<open>v\<close> from it, and the spawn loop creates
  \<open>max 1 max_threads\<close> workers, the same workers as for any other eye and look-at
  point. When moreover \<open>image_height\<close>, \<open>image_width\<close> and \<open>max_threads\<close> are at least
  one and \<open>defocus_angle \<le> 0\<close>, \<^verbatim>\<open>render\<close> returns normally for every scene and every
  random source: the camera it leaves has the geometry that \<^verbatim>\<open>initialize\<close> derived from
  the zero vector, and every framebuffer slot holds the sum of the samples that the
  workers traced along the rays that \<^verbatim>\<open>get_ray\<close> builds from that geometry.
\<close>

theorem render_accepts_degenerate_view:
  assumes "lookfrom c = lookat c"
    and "0 \<le> image_height c * image_width c" and "image_height c * image_width c < 2 ^ 31"
    and "0 \<le> max_threads c"
  shows "\<exists>c1. initialize c = Inr c1
           \<and> center c1 = lookfrom c
           \<and> basis_w c1 = unit_vector (Vec3 0 0 0)
           \<and> basis_u c1 = unit_vector (cross (vup c) (basis_w c1))
           \<and> basis_v c1 = cross (basis_w c1) (basis_u c1)
           \<and> length (worker_args c1) = nat (max 1 (max_threads c))
           \<and> (\<forall>p q. map_sum id worker_args (initialize (c\<lparr> lookfrom := p, lookat := q \<rparr>))
                       = Inr (worker_args c1))
           \<and> (1 \<le> image_height c \<and> 1 \<le> image_width c \<and> 1 \<le> max_threads c
                \<and> defocus_angle c \<le> 0 \<longrightarrow>
               (\<forall>(world :: 'm hittable) rnd.
                  \<exists>c3. render world rnd c = Inr c3 \<and> same_config c3 c1
                    \<and> (\<forall>j i. 0 \<le> j \<and> j < image_height c \<and> 0 \<le> i \<and> i < image_width c \<longrightarrow>
                           pixel_sum world rnd c1 j i (samples_per_pixel c) (Vec3 0 0 0)
                             = Some (image_buf c3 ! nat (j * image_width c + i)))))"
proof -
  from initialize_succeeds [OF assms(2-4)] obtain c1 where c1: "initialize c = Inr c1" by blast
  have len: "length (worker_args c1) = nat (max 1 (max_threads c))"
    using initialize_buffers(3) [OF c1] by (simp add: length_worker_args max_def)
  have same: "map_sum id worker_args (initialize (c\<lparr> lookfrom := p, lookat := q \<rparr>))
                = Inr (worker_args c1)" for p q
  proof -
    from initialize_succeeds [of "c\<lparr> lookfrom := p, lookat := q \<rparr>"] assms(2-4)
    obtain c2 where c2: "initialize (c\<lparr> lookfrom := p, lookat := q \<rparr>) = Inr c2" by auto
    from initialize_buffers(3,4) [OF c1] initialize_buffers(3,4) [OF c2]
    have "worker_args c2 = worker_args c1" by (intro worker_args_cong) simp_all
    with c2 show ?thesis by simp
  qed
  from initialize_basis [OF c1] assms(1)
  have geo: "center c1 = lookfrom c" "basis_w c1 = unit_vector (Vec3 0 0 0)"
    "basis_u c1 = unit_vector (cross (vup c) (basis_w c1))"
    "basis_v c1 = cross (basis_w c1) (basis_u c1)"
    by (simp_all add: vsub_self)
  have run: "\<exists>c3. render world rnd c = Inr c3 \<and> same_config c3 c1
                    \<and> (\<forall>j i. 0 \<le> j \<and> j < image_height c \<and> 0 \<le> i \<and> i < image_width c \<longrightarrow>
                           pixel_sum world rnd c1 j i (samples_per_pixel c) (Vec3 0 0 0)
                             = Some (image_buf c3 ! nat (j * image_width c + i)))"
    if ok: "1 \<le> image_height c" "1 \<le> image_width c" "1 \<le> max_threads c" "defocus_angle c \<le> 0"
    for world :: "'m hittable" and rnd
  proof -
    from render_total [OF ok(1,2) assms(3) ok(3,4)] obtain c3 where
      c3: "render world rnd c = Inr c3" by blast
    have "pixel_sum world rnd c1 j i (samples_per_pixel c) (Vec3 0 0 0)
            = Some (image_buf c3 ! nat (j * image_width c + i))"
      if "0 \<le> j" "j < image_height c" "0 \<le> i" "i < image_width c" for j i
      using render_pixels [OF c3 ok(1,3) that] c1 by simp
    with c3 render_same_config [OF c3 c1] show ?thesis by blast
  qed
  from c1 geo len same run show ?thesis by blast
qed

theorem render_accepts_degenerate_view_witness:
  "lookfrom degenerate_camera = lookat degenerate_camera
   \<and> 0 \<le> image_height degenerate_camera * image_width degenerate_camera
   \<and> image_height degenerate_camera * image_width degenerate_camera < 2 ^ 31
   \<and> 0 \<le> max_threads degenerate_camera
   \<and> 1 \<le> image_height degenerate_camera \<and> 1 \<le> image_width degenerate_camera
   \<and> 1 \<le> max_threads degenerate_camera \<and> defocus_angle degenerate_camera \<le> 0
   \<and> (0::int) \<le> 2 \<and> 2 < image_height degenerate_camera \<and> 1 < image_width degenerate_camera
   \<and> (\<exists>c1 c3. initialize degenerate_camera = Inr c1
          \<and> center c1 = lookfrom degenerate_camera
          \<and> basis_w c1 = unit_vector (Vec3 0 0 0)
          \<and> length (worker_args c1) = 2
          \<and> map_sum id worker_args (initialize small_camera) = Inr (worker_args c1)
          \<and> render mirror_world half_draws degenerate_camera = Inr c3
          \<and> same_config c3 c1
          \<and> pixel_sum mirror_world half_draws c1 2 1 (samples_per_pixel degenerate_camera)
                (Vec3 0 0 0)
              = Some (image_buf c3 ! nat (2 * image_width degenerate_camera + 1)))"
proof -
  have h: "lookfrom degenerate_camera = lookat degenerate_camera"
    "0 \<le> image_height degenerate_camera * image_width degenerate_camera"
    "image_height degenerate_camera * image_width degenerate_camera < 2 ^ 31"
    "0 \<le> max_threads degenerate_camera"
    by (simp_all add: degenerate_camera_def camera_eval)
  have ok: "1 \<le> image_height degenerate_camera \<and> 1 \<le> image_width degenerate_camera
      \<and> 1 \<le> max_threads degenerate_camera \<and> defocus_angle degenerate_camera \<le> 0"
    by (simp add: degenerate_camera_def camera_eval)
  have px: "(0::int) \<le> 2 \<and> 2 < image_height degenerate_camera \<and> (0::int) \<le> 1
      \<and> 1 < image_width degenerate_camera"
    by (simp add: degenerate_camera_def camera_eval)
  have undo: "degenerate_camera\<lparr> lookfrom := Vec3 0 0 (- 1), lookat := Vec3 0 0 0 \<rparr> = small_camera"
    by (simp add: degenerate_camera_def camera_eval)
  have two: "nat (max 1 (max_threads degenerate_camera)) = 2"
    by (simp add: degenerate_camera_def camera_eval)
  from render_accepts_degenerate_view [OF h, where ?'m = unit] obtain c1 where
    c1: "initialize degenerate_camera = Inr c1"
      "center c1 = lookfrom degenerate_camera"
      "basis_w c1 = unit_vector (Vec3 0 0 0)"
      "length (worker_args c1) = nat (max 1 (max_threads degenerate_camera))"
      "\<And>p q. map_sum id worker_args (initialize (degenerate_camera\<lparr> lookfrom := p, lookat := q \<rparr>))
                       = Inr (worker_args c1)"
    and r: "1 \<le> image_height degenerate_camera \<and> 1 \<le> image_width degenerate_camera
                \<and> 1 \<le> max_threads degenerate_camera \<and> defocus_angle degenerate_camera \<le> 0 \<longrightarrow>
               (\<forall>(world :: unit hittable) rnd.
                  \<exists>c3. render world rnd degenerate_camera = Inr c3 \<and> same_config c3 c1
                    \<and> (\<forall>j i. 0 \<le> j \<and> j < image_height degenerate_camera \<and> 0 \<le> i
                              \<and> i < image_width degenerate_camera \<longrightarrow>
                           pixel_sum world rnd c1 j i (samples_per_pixel degenerate_camera)
                               (Vec3 0 0 0)
                             = Some (image_buf c3 ! nat (j * image_width degenerate_camera + i))))"
    by blast
  from r [rule_format, OF ok, of mirror_world half_draws] obtain c3 where
    c3: "render mirror_world half_draws degenerate_camera = Inr c3" "same_config c3 c1"
    and sums: "\<forall>j i. 0 \<le> j \<and> j < image_height degenerate_camera \<and> 0 \<le> i
                              \<and> i < image_width degenerate_camera \<longrightarrow>
                           pixel_sum mirror_world half_draws c1 j i
                               (samples_per_pixel degenerate_camera) (Vec3 0 0 0)
                             = Some (image_buf c3 ! nat (j * image_width degenerate_camera + i))"
    by blast
  from sums [rule_format, OF px]
  have s21: "pixel_sum mirror_world half_draws c1 2 1 (samples_per_pixel degenerate_camera)
                (Vec3 0 0 0)
              = Some (image_buf c3 ! nat (2 * image_width degenerate_camera + 1))" .
  from c1(5) [where p = "Vec3 0 0 (- 1)" and q = "Vec3 0 0 0"] undo
  have w: "map_sum id worker_args (initialize small_camera) = Inr (worker_args c1)" by simp
  from c1(4) two have l2: "length (worker_args c1) = 2" by simp
  from c1(1,2,3) l2 w c3 s21
  have "\<exists>c1 c3. initialize degenerate_camera = Inr c1
          \<and> center c1 = lookfrom degenerate_camera
          \<and> basis_w c1 = unit_vector (Vec3 0 0 0)
          \<and> length (worker_args c1) = 2
          \<and> map_sum id worker_args (initialize small_camera) = Inr (worker_args c1)
          \<and> render mirror_world half_draws degenerate_camera = Inr c3
          \<and> same_config c3 c1
          \<and> pixel_sum mirror_world half_draws c1 2 1 (samples_per_pixel degenerate_camera)
                (Vec3 0 0 0)
              = Some (image_buf c3 ! nat (2 * image_width degenerate_camera + 1))"
    by blast
  with h ok px show ?thesis by simp
qed

end
